theory Spec2Isabelle
  imports Complex_Main "HOL-Library.AList" "HOL-Library.Sublist"
begin

section \<open>Board model (src/pages/Battleship.tsx)\<close>

text \<open>
  The game engine of \<^verbatim>\<open>Battleship.tsx\<close>: board and fleet types, the placement
  generator, the shot resolver \<^verbatim>\<open>registerHit\<close>, the win test \<^verbatim>\<open>checkWin\<close> and the
  two firing handlers \<^verbatim>\<open>playerFire\<close> and \<^verbatim>\<open>cpuFire\<close>.

  JavaScript numbers that hold coordinates, sizes and ids are modelled as \<open>int\<close>; the
  results of \<^verbatim>\<open>Math.random()\<close> as \<open>real\<close>, so that \<^verbatim>\<open>Math.floor(r * k)\<close> is the
  floor of a product of reals (rounding of floating point numbers is left out). Reading
  a property of \<^verbatim>\<open>undefined\<close> (an array index out of range) throws a TypeError in
  the source: it is the value \<open>Inl TypeError\<close> here. The state of the React component
  is a record that the handlers take and return.

  An earlier revision of the file is among the sources too: it has the same types,
  placement, \<^verbatim>\<open>registerHit\<close>, \<^verbatim>\<open>checkWin\<close> and turn rule; its \<^verbatim>\<open>cpuFire\<close>
  reads the board of its closure, where the revision modelled here reads the current one.
\<close>

record Cell =
  hasShip :: bool
  hit :: bool
  shipId :: "int option"

type_synonym Board = "Cell list list"

record Ship =
  id_ship :: int
  size_ship :: int
  hits :: int

text \<open>
  \<^verbatim>\<open>Record<number, Ship>\<close>: an object with numeric keys. It is an association list
  in insertion order; \<open>map_of\<close> reads a key, \<open>AList.update\<close> writes one (in place when
  the key exists, as the object spread with a computed key does).
\<close>

type_synonym Fleet = "(int \<times> Ship) list"

text \<open>
  The ways a function of the source fails: a TypeError, or (in \<^verbatim>\<open>registerHit\<close>) a
  fleet without the record that a cell refers to.
\<close>

datatype error = TypeError | UntypedShip

definition BOARD_SIZE :: int where
  "BOARD_SIZE = 10"

definition SHIP_SIZES :: "int list" where
  "SHIP_SIZES = [4, 3, 3, 2, 2, 2, 1, 1, 1, 1]"

definition emptyCell :: Cell where
  "emptyCell = \<lparr>hasShip = False, hit = False, shipId = None\<rparr>"

definition createEmptyBoard :: Board where
  "createEmptyBoard = replicate (nat BOARD_SIZE) (replicate (nat BOARD_SIZE) emptyCell)"

definition inBounds :: "int \<Rightarrow> int \<Rightarrow> bool" where
  "inBounds x y \<longleftrightarrow> x \<ge> 0 \<and> y \<ge> 0 \<and> x < BOARD_SIZE \<and> y < BOARD_SIZE"

text \<open>
  \<^verbatim>\<open>board[y][x]\<close>: \<open>None\<close> when the row or the cell is \<^verbatim>\<open>undefined\<close>, so that the
  property access that follows in the source throws.
\<close>

definition getCell :: "Board \<Rightarrow> int \<Rightarrow> int \<Rightarrow> Cell option" where
  "getCell board x y =
     (if 0 \<le> y \<and> nat y < length board then
        (if 0 \<le> x \<and> nat x < length (board ! nat y) then Some (board ! nat y ! nat x)
         else None)
      else None)"

text \<open>
  \<^verbatim>\<open>board[y][x] = c\<close> on an existing row and column (every write of the source is
  behind a successful bounds check).
\<close>

definition setCell :: "Board \<Rightarrow> int \<Rightarrow> int \<Rightarrow> Cell \<Rightarrow> Board" where
  "setCell board x y c = board[nat y := (board ! nat y)[nat x := c]]"

section \<open>Fleet placement\<close>

text \<open>The nine offsets of the two nested loops over \<^verbatim>\<open>dx\<close> and \<^verbatim>\<open>dy\<close>, in loop order.\<close>

definition offsets :: "(int \<times> int) list" where
  "offsets = concat (map (\<lambda>dx. map (\<lambda>dy. (dx, dy)) [-1, 0, 1]) [-1, 0, 1])"

text \<open>
  The inner loops of \<^verbatim>\<open>canPlaceShip\<close> around the cell \<open>(cx, cy)\<close>: \<open>Inr False\<close> is the
  early \<^verbatim>\<open>return false\<close>, \<open>Inr True\<close> is falling out of the loops.
\<close>

fun scanNeighbours :: "Board \<Rightarrow> int \<Rightarrow> int \<Rightarrow> (int \<times> int) list \<Rightarrow> error + bool" where
  "scanNeighbours board cx cy [] = Inr True"
| "scanNeighbours board cx cy ((dx, dy) # ds) =
     (if inBounds (cx + dx) (cy + dy) then
        (case getCell board (cx + dx) (cy + dy) of
           None \<Rightarrow> Inl TypeError
         | Some c \<Rightarrow> if hasShip c then Inr False else scanNeighbours board cx cy ds)
      else scanNeighbours board cx cy ds)"

text \<open>The outer loop of \<^verbatim>\<open>canPlaceShip\<close>, from index \<open>i\<close>.\<close>

function canPlaceFrom :: "Board \<Rightarrow> int \<Rightarrow> int \<Rightarrow> int \<Rightarrow> bool \<Rightarrow> int \<Rightarrow> error + bool" where
  "canPlaceFrom board x y sz horizontal i =
     (if i < sz then
        (if \<not> inBounds (if horizontal then x + i else x) (if horizontal then y else y + i)
         then Inr False
         else if scanNeighbours board (if horizontal then x + i else x)
                   (if horizontal then y else y + i) offsets = Inr True
         then canPlaceFrom board x y sz horizontal (i + 1)
         else scanNeighbours board (if horizontal then x + i else x)
                   (if horizontal then y else y + i) offsets)
      else Inr True)"
  by pat_completeness auto
termination
  by (relation "measure (\<lambda>(board, x, y, sz, horizontal, i). nat (sz - i))") auto

definition canPlaceShip :: "Board \<Rightarrow> int \<Rightarrow> int \<Rightarrow> int \<Rightarrow> bool \<Rightarrow> error + bool" where
  "canPlaceShip board x y sz horizontal = canPlaceFrom board x y sz horizontal 0"

text \<open>
  The loop of \<^verbatim>\<open>placeShipsRandomly\<close> that writes the cells of a ship, from index \<open>i\<close>.
\<close>

function writeShip :: "Board \<Rightarrow> int \<Rightarrow> int \<Rightarrow> int \<Rightarrow> bool \<Rightarrow> int \<Rightarrow> int \<Rightarrow> Board" where
  "writeShip board x y sz horizontal sid i =
     (if i < sz then
        writeShip
          (setCell board (if horizontal then x + i else x) (if horizontal then y else y + i)
             \<lparr>hasShip = True, hit = False, shipId = Some sid\<rparr>)
          x y sz horizontal sid (i + 1)
      else board)"
  by pat_completeness auto
termination
  by (relation "measure (\<lambda>(board, x, y, sz, horizontal, sid, i). nat (sz - i))") auto

text \<open>
  The state of \<^verbatim>\<open>placeShipsRandomly\<close>: the board, the fleet, the next ship id, and the
  number of calls of \<^verbatim>\<open>Math.random()\<close> made so far. The random source \<open>rnd\<close> gives the
  result of the \<open>n\<close>-th call.
\<close>

record Placing =
  p_board :: Board
  p_ships :: Fleet
  p_shipId :: int
  p_calls :: nat

text \<open>
  The \<^verbatim>\<open>while (!placed && attempts < 500)\<close> loop for one ship, entered with
  \<open>placed = false\<close>; a successful attempt sets \<open>placed\<close> and leaves the loop.
\<close>

function tryPlace :: "(nat \<Rightarrow> real) \<Rightarrow> Placing \<Rightarrow> int \<Rightarrow> nat \<Rightarrow> error + Placing" where
  "tryPlace rnd st sz attempts =
     (if attempts < 500 then
        (let horizontal = (rnd (p_calls st) < 1 / 2);
             x = \<lfloor>rnd (p_calls st + 1)
                    * of_int (if horizontal then BOARD_SIZE - sz + 1 else BOARD_SIZE)\<rfloor>;
             y = \<lfloor>rnd (p_calls st + 2)
                    * of_int (if horizontal then BOARD_SIZE else BOARD_SIZE - sz + 1)\<rfloor>
         in case canPlaceShip (p_board st) x y sz horizontal of
              Inl e \<Rightarrow> Inl e
            | Inr ok \<Rightarrow>
                if \<not> ok then tryPlace rnd (st\<lparr>p_calls := p_calls st + 3\<rparr>) sz (attempts + 1)
                else Inr \<lparr>p_board = writeShip (p_board st) x y sz horizontal (p_shipId st) 0,
                          p_ships = AList.update (p_shipId st)
                             \<lparr>id_ship = p_shipId st, size_ship = sz, hits = 0\<rparr> (p_ships st),
                          p_shipId = p_shipId st + 1,
                          p_calls = p_calls st + 3\<rparr>)
      else Inr st)"
  by pat_completeness auto
termination
  by (relation "measure (\<lambda>(rnd, st, sz, attempts). 500 - attempts)") auto

text \<open>The \<^verbatim>\<open>for (const size of SHIP_SIZES)\<close> loop, and the function around it.\<close>

fun placeAll :: "(nat \<Rightarrow> real) \<Rightarrow> Placing \<Rightarrow> int list \<Rightarrow> error + Placing" where
  "placeAll rnd st [] = Inr st"
| "placeAll rnd st (sz # sizes) =
     (case tryPlace rnd st sz 0 of
        Inl e \<Rightarrow> Inl e
      | Inr st' \<Rightarrow> placeAll rnd st' sizes)"

definition placing :: "(nat \<Rightarrow> real) \<Rightarrow> error + Placing" where
  "placing rnd =
     placeAll rnd \<lparr>p_board = createEmptyBoard, p_ships = [], p_shipId = 1, p_calls = 0\<rparr>
       SHIP_SIZES"

definition placeShipsRandomly :: "(nat \<Rightarrow> real) \<Rightarrow> error + (Board \<times> Fleet)" where
  "placeShipsRandomly rnd =
     (case placing rnd of
        Inl e \<Rightarrow> Inl e
      | Inr st \<Rightarrow> Inr (p_board st, p_ships st))"

declare canPlaceFrom.simps [simp del] writeShip.simps [simp del] tryPlace.simps [simp del]

section \<open>Shot resolution\<close>

datatype outcome = Repeat | Miss | Hit | Sunk

text \<open>The object that \<^verbatim>\<open>registerHit\<close> returns.\<close>

record HitResult =
  hr_board :: Board
  hr_ships :: Fleet
  hr_result :: outcome

text \<open>\<^verbatim>\<open>board.map((row) => row.map((c) => ({ ...c })))\<close>: a copy, cell by cell.\<close>

definition cloneBoard :: "Board \<Rightarrow> Board" where
  "cloneBoard board = map (\<lambda>row. map (\<lambda>c. c) row) board"

text \<open>
  \<^verbatim>\<open>registerHit\<close>. The test \<^verbatim>\<open>cell.hasShip && cell.shipId\<close> needs a ship id that is
  defined and not \<open>0\<close>. When the fleet has no record under that id, the source goes on
  with an object without fields (its \<^verbatim>\<open>hits\<close> becomes NaN, its \<^verbatim>\<open>id\<close> is
  \<^verbatim>\<open>undefined\<close>), which is no value of the type \<^verbatim>\<open>Ship\<close>: the model stops there
  with \<open>Inl UntypedShip\<close>.
\<close>

definition registerHit :: "Board \<Rightarrow> Fleet \<Rightarrow> int \<Rightarrow> int \<Rightarrow> error + HitResult" where
  "registerHit board ships x y =
     (let next = cloneBoard board in
      case getCell next x y of
        None \<Rightarrow> Inl TypeError
      | Some cell \<Rightarrow>
          if hit cell then Inr \<lparr>hr_board = next, hr_ships = ships, hr_result = Repeat\<rparr>
          else
            (let cell' = cell\<lparr>hit := True\<rparr>; next' = setCell next x y cell' in
             case (if hasShip cell' then shipId cell' else None) of
               None \<Rightarrow> Inr \<lparr>hr_board = next', hr_ships = ships, hr_result = Miss\<rparr>
             | Some k \<Rightarrow>
                 if k = 0 then Inr \<lparr>hr_board = next', hr_ships = ships, hr_result = Miss\<rparr>
                 else
                   (case map_of ships k of
                      None \<Rightarrow> Inl UntypedShip
                    | Some s \<Rightarrow>
                        (let ship = s\<lparr>hits := hits s + 1\<rparr>;
                             sunk = (hits ship \<ge> size_ship ship);
                             updated = AList.update (id_ship ship) ship ships
                         in Inr \<lparr>hr_board = next', hr_ships = updated,
                                 hr_result = (if sunk then Sunk else Hit)\<rparr>))))"

text \<open>\<^verbatim>\<open>Object.values(ships).every((s) => s.hits >= s.size)\<close>.\<close>

definition checkWin :: "Fleet \<Rightarrow> bool" where
  "checkWin ships = list_all (\<lambda>s. hits s \<ge> size_ship s) (map snd ships)"

section \<open>Turn handling\<close>

datatype side = Player | Cpu

text \<open>
  The state of the \<^verbatim>\<open>Battleship\<close> component and of \<^verbatim>\<open>useGameTracking\<close>, with the
  number of \<^verbatim>\<open>setTimeout(cpuFire, 700)\<close> calls made. Toasts, logging and the
  call of \<^verbatim>\<open>saveGameResult\<close> are left out.
\<close>

record Game =
  playerBoard :: Board
  cpuBoard :: Board
  playerShips :: Fleet
  cpuShips :: Fleet
  playerTurn :: bool
  gameOver :: "side option"
  cpuLastShot :: "(int \<times> int) option"
  playerShots :: nat
  computerShots :: nat
  cpuTimers :: nat

text \<open>The initial values of the \<^verbatim>\<open>useState\<close> hooks.\<close>

definition initialGame :: Game where
  "initialGame =
     \<lparr>playerBoard = createEmptyBoard, cpuBoard = createEmptyBoard,
      playerShips = [], cpuShips = [], playerTurn = True, gameOver = None,
      cpuLastShot = None, playerShots = 0, computerShots = 0, cpuTimers = 0\<rparr>"

text \<open>
  \<^verbatim>\<open>newGame\<close>: two placements, the second one drawing from the random source where the
  first one stopped.
\<close>

definition newGame :: "(nat \<Rightarrow> real) \<Rightarrow> Game \<Rightarrow> error + Game" where
  "newGame rnd g =
     (case placing rnd of
        Inl e \<Rightarrow> Inl e
      | Inr p \<Rightarrow>
          (case placing (\<lambda>n. rnd (p_calls p + n)) of
             Inl e \<Rightarrow> Inl e
           | Inr c \<Rightarrow>
               Inr (g\<lparr>playerBoard := p_board p, cpuBoard := p_board c,
                      playerShips := p_ships p, cpuShips := p_ships c,
                      playerTurn := True, gameOver := None, cpuLastShot := None,
                      playerShots := 0, computerShots := 0\<rparr>)))"

text \<open>
  \<^verbatim>\<open>playerFire\<close>, the click handler of the CPU's grid. An exception of
  \<^verbatim>\<open>registerHit\<close> leaves the handler before any state is set.
\<close>

definition playerFire :: "Game \<Rightarrow> int \<Rightarrow> int \<Rightarrow> error + Game" where
  "playerFire g x y =
     (if gameOver g \<noteq> None \<or> \<not> playerTurn g then Inr g
      else
        (case registerHit (cpuBoard g) (cpuShips g) x y of
           Inl e \<Rightarrow> Inl e
         | Inr r \<Rightarrow>
             (let g1 = g\<lparr>cpuBoard := hr_board r, cpuShips := hr_ships r,
                         playerShots := playerShots g + 1\<rparr>
              in if checkWin (hr_ships r)
                 then Inr (g1\<lparr>gameOver := Some Player\<rparr>)
                 else if hr_result r = Miss
                 then Inr (g1\<lparr>playerTurn := False, cpuTimers := cpuTimers g1 + 1\<rparr>)
                 else Inr (g1\<lparr>playerTurn := True\<rparr>))))"

text \<open>
  The cells of the grid in the order of the loops of \<^verbatim>\<open>cpuFire\<close> (rows outside,
  columns inside), and the loop that collects the cells not yet fired at.
\<close>

definition allCoords :: "(int \<times> int) list" where
  "allCoords =
     concat (map (\<lambda>y. map (\<lambda>x. (x, y)) [0..BOARD_SIZE - 1]) [0..BOARD_SIZE - 1])"

fun candidatesFrom :: "Board \<Rightarrow> (int \<times> int) list \<Rightarrow> error + (int \<times> int) list" where
  "candidatesFrom board [] = Inr []"
| "candidatesFrom board ((x, y) # ps) =
     (case getCell board x y of
        None \<Rightarrow> Inl TypeError
      | Some c \<Rightarrow>
          (case candidatesFrom board ps of
             Inl e \<Rightarrow> Inl e
           | Inr cs \<Rightarrow> Inr (if \<not> hit c then (x, y) # cs else cs)))"

text \<open>
  \<^verbatim>\<open>cpuFire\<close>, with \<open>r\<close> the result of its call of \<^verbatim>\<open>Math.random()\<close>. The function
  runs as the callback of a timer, some time after the render that created it. Its guard
  \<^verbatim>\<open>if (gameOver) return\<close> reads the constant \<^verbatim>\<open>gameOver\<close> of that render, the
  argument \<open>captured\<close> here; the board and the fleet are those that the updaters of
  \<^verbatim>\<open>setPlayerBoard\<close> and \<^verbatim>\<open>setPlayerShips\<close> receive, the ones of the state \<open>g\<close> in
  which the timer fires. The source calls \<^verbatim>\<open>registerHit\<close> a second time for the board
  alone, with the fleet of its closure; the board that \<^verbatim>\<open>registerHit\<close> returns does not
  depend on the fleet.
\<close>

definition cpuFire :: "side option \<Rightarrow> Game \<Rightarrow> real \<Rightarrow> error + Game" where
  "cpuFire captured g r =
     (if captured \<noteq> None then Inr g
      else
        (case candidatesFrom (playerBoard g) allCoords of
           Inl e \<Rightarrow> Inl e
         | Inr candidates \<Rightarrow>
             if candidates = [] then Inr g
             else
               (let i = \<lfloor>r * of_nat (length candidates)\<rfloor> in
                if i < 0 \<or> i \<ge> int (length candidates) then Inl TypeError
                else
                  (let pick = candidates ! nat i in
                   case registerHit (playerBoard g) (playerShips g) (fst pick) (snd pick) of
                     Inl e \<Rightarrow> Inl e
                   | Inr res \<Rightarrow>
                       (let g1 = g\<lparr>playerBoard := hr_board res, playerShips := hr_ships res,
                                   cpuLastShot := Some pick,
                                   computerShots := computerShots g + 1\<rparr>
                        in if checkWin (hr_ships res)
                           then Inr (g1\<lparr>gameOver := Some Cpu\<rparr>)
                           else if hr_result res = Miss
                           then Inr (g1\<lparr>playerTurn := True\<rparr>)
                           else Inr (g1\<lparr>playerTurn := False,
                                        cpuTimers := cpuTimers g1 + 1\<rparr>))))))"

section \<open>The resolver on a heap of cell objects\<close>

text \<open>
  \<^verbatim>\<open>registerHit\<close> once more, with the cells as objects on a heap, to see what it
  writes: a board is an array of rows of references, \<^verbatim>\<open>{ ...c }\<close> allocates a new
  object at the end of the heap, and \<^verbatim>\<open>cell.hit = true\<close> writes the object that
  \<^verbatim>\<open>cell\<close> refers to. The arrays are values here: \<^verbatim>\<open>registerHit\<close> never assigns
  to an array element.
\<close>

type_synonym Heap = "Cell list"

type_synonym BoardRef = "nat list list"

text \<open>The board that a board of references denotes on a heap, and references in range.\<close>

definition readBoard :: "Heap \<Rightarrow> BoardRef \<Rightarrow> Board" where
  "readBoard h rb = map (\<lambda>row. map (\<lambda>a. h ! a) row) rb"

definition validRefs :: "Heap \<Rightarrow> BoardRef \<Rightarrow> bool" where
  "validRefs h rb \<longleftrightarrow> list_all (\<lambda>row. list_all (\<lambda>a. a < length h) row) rb"

text \<open>\<^verbatim>\<open>next[y][x]\<close> on a board of references.\<close>

definition getRef :: "BoardRef \<Rightarrow> int \<Rightarrow> int \<Rightarrow> nat option" where
  "getRef rb x y =
     (if 0 \<le> y \<and> nat y < length rb then
        (if 0 \<le> x \<and> nat x < length (rb ! nat y) then Some (rb ! nat y ! nat x)
         else None)
      else None)"

text \<open>\<^verbatim>\<open>cloneBoard\<close>: every cell is copied to a new object, row by row.\<close>

fun cloneRowH :: "Heap \<Rightarrow> nat list \<Rightarrow> Heap \<times> nat list" where
  "cloneRowH h [] = (h, [])"
| "cloneRowH h (a # as) =
     (case cloneRowH (h @ [h ! a]) as of (h', bs) \<Rightarrow> (h', length h # bs))"

fun cloneBoardH :: "Heap \<Rightarrow> BoardRef \<Rightarrow> Heap \<times> BoardRef" where
  "cloneBoardH h [] = (h, [])"
| "cloneBoardH h (row # rows) =
     (case cloneRowH h row of
        (h1, row') \<Rightarrow> (case cloneBoardH h1 rows of (h2, rows') \<Rightarrow> (h2, row' # rows')))"

record HitResultH =
  hh_heap :: Heap
  hh_board :: BoardRef
  hh_ships :: Fleet
  hh_result :: outcome

definition registerHitH :: "Heap \<Rightarrow> BoardRef \<Rightarrow> Fleet \<Rightarrow> int \<Rightarrow> int \<Rightarrow> error + HitResultH" where
  "registerHitH h board ships x y =
     (case cloneBoardH h board of
        (h1, next) \<Rightarrow>
          (case getRef next x y of
             None \<Rightarrow> Inl TypeError
           | Some cell \<Rightarrow>
               if hit (h1 ! cell)
               then Inr \<lparr>hh_heap = h1, hh_board = next, hh_ships = ships, hh_result = Repeat\<rparr>
               else
                 (let h2 = h1[cell := (h1 ! cell)\<lparr>hit := True\<rparr>] in
                  case (if hasShip (h2 ! cell) then shipId (h2 ! cell) else None) of
                    None \<Rightarrow>
                      Inr \<lparr>hh_heap = h2, hh_board = next, hh_ships = ships, hh_result = Miss\<rparr>
                  | Some k \<Rightarrow>
                      if k = 0
                      then Inr \<lparr>hh_heap = h2, hh_board = next, hh_ships = ships,
                                hh_result = Miss\<rparr>
                      else
                        (case map_of ships k of
                           None \<Rightarrow> Inl UntypedShip
                         | Some s \<Rightarrow>
                             (let ship = s\<lparr>hits := hits s + 1\<rparr>;
                                  sunk = (hits ship \<ge> size_ship ship);
                                  updated = AList.update (id_ship ship) ship ships
                              in Inr \<lparr>hh_heap = h2, hh_board = next, hh_ships = updated,
                                      hh_result = (if sunk then Sunk else Hit)\<rparr>)))))"

text \<open>The result of the heap version read back as a result of \<^verbatim>\<open>registerHit\<close>.\<close>

definition abstractH :: "HitResultH \<Rightarrow> HitResult" where
  "abstractH q = \<lparr>hr_board = readBoard (hh_heap q) (hh_board q), hr_ships = hh_ships q,
                  hr_result = hh_result q\<rparr>"

section \<open>Shot requests\<close>

text \<open>
  A shot request: a click of the player on a cell of the CPU's grid, or a timer that
  runs \<^verbatim>\<open>cpuFire\<close>, with the result of its call of \<^verbatim>\<open>Math.random()\<close>.

  The click runs the \<^verbatim>\<open>playerFire\<close> of the latest render, which reads the state as it
  is. A timer runs the \<^verbatim>\<open>cpuFire\<close> that \<^verbatim>\<open>setTimeout(cpuFire, 700)\<close> was given: in
  \<^verbatim>\<open>playerFire\<close> that of a render which passed the guard \<^verbatim>\<open>if (gameOver || !playerTurn)\<close>,
  in \<^verbatim>\<open>cpuFire\<close> the running function itself. So every timer holds a function whose
  \<^verbatim>\<open>gameOver\<close> is \<^verbatim>\<open>null\<close>, whatever the state is when it fires.
\<close>

datatype request = PlayerShot int int | CpuShot real

fun serve :: "Game \<Rightarrow> request \<Rightarrow> error + Game" where
  "serve g (PlayerShot x y) = playerFire g x y"
| "serve g (CpuShot r) = cpuFire None g r"

fun serveAll :: "Game \<Rightarrow> request list \<Rightarrow> error + Game" where
  "serveAll g [] = Inr g"
| "serveAll g (q # qs) = (case serve g q of Inl e \<Rightarrow> Inl e | Inr g' \<Rightarrow> serveAll g' qs)"

text \<open>
  The requests that the page can make: the grid offers the cells in bounds, and
  \<^verbatim>\<open>Math.random()\<close> is at least \<open>0\<close> and less than \<open>1\<close>.
\<close>

fun validRequest :: "request \<Rightarrow> bool" where
  "validRequest (PlayerShot x y) = inBounds x y"
| "validRequest (CpuShot r) = (0 \<le> r \<and> r < 1)"

text \<open>Player shots at a list of cells, and CPU shots with a list of draws.\<close>

definition shotsAt :: "(int \<times> int) list \<Rightarrow> request list" where
  "shotsAt cs = map (\<lambda>p. PlayerShot (fst p) (snd p)) cs"

definition cpuShots :: "real list \<Rightarrow> request list" where
  "cpuShots rs = map CpuShot rs"

text \<open>The cell that \<^verbatim>\<open>cpuFire\<close> fires at, if it fires at all.\<close>

definition cpuPick :: "side option \<Rightarrow> Game \<Rightarrow> real \<Rightarrow> (int \<times> int) option" where
  "cpuPick captured g r =
     (if captured \<noteq> None then None
      else
        (case candidatesFrom (playerBoard g) allCoords of
           Inl e \<Rightarrow> None
         | Inr candidates \<Rightarrow>
             if candidates = [] then None
             else
               (let i = \<lfloor>r * of_nat (length candidates)\<rfloor> in
                if i < 0 \<or> i \<ge> int (length candidates) then None
                else Some (candidates ! nat i))))"

text \<open>The cells that a run of CPU shots (timers that fire) fires at, in order.\<close>

fun cpuTargets :: "Game \<Rightarrow> real list \<Rightarrow> (int \<times> int) list" where
  "cpuTargets g [] = []"
| "cpuTargets g (r # rs) =
     (case cpuFire None g r of
        Inl e \<Rightarrow> []
      | Inr g' \<Rightarrow> (case cpuPick None g r of None \<Rightarrow> [] | Some p \<Rightarrow> [p]) @ cpuTargets g' rs)"

section \<open>Properties of boards, fleets and games\<close>

text \<open>A grid of \<open>BOARD_SIZE\<close> rows of \<open>BOARD_SIZE\<close> cells.\<close>

definition wf_board :: "Board \<Rightarrow> bool" where
  "wf_board board \<longleftrightarrow>
     length board = nat BOARD_SIZE \<and> list_all (\<lambda>row. length row = nat BOARD_SIZE) board"

text \<open>The coordinates of the grid whose cell satisfies \<open>P\<close>.\<close>

definition cellsWhere :: "(Cell \<Rightarrow> bool) \<Rightarrow> Board \<Rightarrow> (int \<times> int) list" where
  "cellsWhere P board =
     filter (\<lambda>p. case getCell board (fst p) (snd p) of None \<Rightarrow> False | Some c \<Rightarrow> P c)
       allCoords"

text \<open>The occupied cells, the cells of the ship \<open>k\<close>, and those of them fired at.\<close>

definition occupiedCells :: "Board \<Rightarrow> (int \<times> int) list" where
  "occupiedCells board = cellsWhere hasShip board"

definition shipCells :: "Board \<Rightarrow> int \<Rightarrow> (int \<times> int) list" where
  "shipCells board k = cellsWhere (\<lambda>c. shipId c = Some k) board"

definition firedCells :: "Board \<Rightarrow> int \<Rightarrow> (int \<times> int) list" where
  "firedCells board k = cellsWhere (\<lambda>c. shipId c = Some k \<and> hit c) board"

text \<open>The ship id at a coordinate, and the Chebyshev distance of two coordinates.\<close>

definition shipAt :: "Board \<Rightarrow> int \<times> int \<Rightarrow> int option" where
  "shipAt board p =
     (case getCell board (fst p) (snd p) of None \<Rightarrow> None | Some c \<Rightarrow> shipId c)"

definition chebyshev :: "int \<times> int \<Rightarrow> int \<times> int \<Rightarrow> int" where
  "chebyshev p q = max \<bar>fst p - fst q\<bar> \<bar>snd p - snd q\<bar>"

text \<open>Occupied cells of different ships are at Chebyshev distance at least 2.\<close>

definition separated :: "Board \<Rightarrow> bool" where
  "separated board \<longleftrightarrow>
     (\<forall>p \<in> set (occupiedCells board). \<forall>q \<in> set (occupiedCells board).
        shipAt board p \<noteq> shipAt board q \<longrightarrow> chebyshev p q \<ge> 2)"

text \<open>
  A cell has a ship id iff it is occupied, and that id is the key of a ship of the fleet
  (never \<open>0\<close>, which \<^verbatim>\<open>registerHit\<close> would take for no id).
\<close>

definition cellsLinked :: "Board \<Rightarrow> Fleet \<Rightarrow> bool" where
  "cellsLinked board ships \<longleftrightarrow>
     (\<forall>p \<in> set allCoords. \<forall>c. getCell board (fst p) (snd p) = Some c \<longrightarrow>
        (hasShip c \<longleftrightarrow> shipId c \<noteq> None) \<and>
        (\<forall>k. shipId c = Some k \<longrightarrow> k \<noteq> 0 \<and> k \<in> fst ` set ships))"

text \<open>
  Every ship is stored under its own id, its size is the number of its cells on the
  board, and its hit count is the number of those cells that were fired at.
\<close>

definition shipsCounted :: "Board \<Rightarrow> Fleet \<Rightarrow> bool" where
  "shipsCounted board ships \<longleftrightarrow>
     distinct (map fst ships) \<and>
     (\<forall>e \<in> set ships.
        id_ship (snd e) = fst e \<and>
        size_ship (snd e) = int (length (shipCells board (fst e))) \<and>
        hits (snd e) = int (length (firedCells board (fst e))))"

text \<open>
  The boards and fleets of the data model. Placement returns such a pair and every
  shot keeps it (\<open>placed_consistent\<close>, \<open>registerHit_consistent\<close>).
\<close>

definition consistent :: "Board \<Rightarrow> Fleet \<Rightarrow> bool" where
  "consistent board ships \<longleftrightarrow>
     wf_board board \<and> cellsLinked board ships \<and> shipsCounted board ships"

text \<open>The invariants of the data model: of the cells, and of the ships.\<close>

definition cellInv :: "Board \<Rightarrow> bool" where
  "cellInv board \<longleftrightarrow>
     (\<forall>p \<in> set allCoords. \<forall>c. getCell board (fst p) (snd p) = Some c \<longrightarrow>
        (shipId c \<noteq> None \<longleftrightarrow> hasShip c))"

definition shipInv :: "Fleet \<Rightarrow> bool" where
  "shipInv ships \<longleftrightarrow> (\<forall>e \<in> set ships. 0 \<le> hits (snd e) \<and> hits (snd e) \<le> size_ship (snd e))"

text \<open>Both sides of a game are consistent.\<close>

definition gameInv :: "Game \<Rightarrow> bool" where
  "gameInv g \<longleftrightarrow>
     consistent (playerBoard g) (playerShips g) \<and> consistent (cpuBoard g) (cpuShips g)"

text \<open>Every cell fired at on \<open>b\<close> is fired at on \<open>b'\<close>.\<close>

definition firedKept :: "Board \<Rightarrow> Board \<Rightarrow> bool" where
  "firedKept b b' \<longleftrightarrow>
     (\<forall>p \<in> set allCoords. \<forall>c. getCell b (fst p) (snd p) = Some c \<longrightarrow> hit c \<longrightarrow>
        (\<exists>c'. getCell b' (fst p) (snd p) = Some c' \<and> hit c'))"

text \<open>The sizes of the ships of a fleet, in the order of the fleet.\<close>

definition shipSizes :: "Fleet \<Rightarrow> int list" where
  "shipSizes ships = map (\<lambda>e. size_ship (snd e)) ships"

text \<open>A fleet is fully sunk when the hit count of every ship equals its size.\<close>

definition fullySunk :: "Fleet \<Rightarrow> bool" where
  "fullySunk ships \<longleftrightarrow> list_all (\<lambda>e. hits (snd e) = size_ship (snd e)) ships"

text \<open>
  The position that the attempt number \<open>k\<close> (from \<open>0\<close>) for a ship of size \<open>sz\<close> draws
  is free, when the loop for that ship is entered in the state \<open>st\<close>: the attempt reads
  the three draws from \<open>p_calls st + 3 * k\<close> on (earlier attempts that fail change nothing
  else), and the position passes \<^verbatim>\<open>canPlaceShip\<close> on the board of \<open>st\<close>.
\<close>

definition attemptFits :: "(nat \<Rightarrow> real) \<Rightarrow> Placing \<Rightarrow> int \<Rightarrow> nat \<Rightarrow> bool" where
  "attemptFits rnd st sz k \<longleftrightarrow>
     (let n = p_calls st + 3 * k;
          horizontal = (rnd n < 1 / 2);
          x = \<lfloor>rnd (n + 1)
                 * of_int (if horizontal then BOARD_SIZE - sz + 1 else BOARD_SIZE)\<rfloor>;
          y = \<lfloor>rnd (n + 2)
                 * of_int (if horizontal then BOARD_SIZE else BOARD_SIZE - sz + 1)\<rfloor>
      in canPlaceShip (p_board st) x y sz horizontal = Inr True)"

text \<open>One of the 500 attempts for the ship finds a free position.\<close>

definition everFits :: "(nat \<Rightarrow> real) \<Rightarrow> Placing \<Rightarrow> int \<Rightarrow> bool" where
  "everFits rnd st sz \<longleftrightarrow> (\<exists>k \<in> {0..<500}. attemptFits rnd st sz k)"

text \<open>
  The sizes, in order, of the ships of \<open>sizes\<close> one of whose 500 attempts finds a free
  position, each ship being tried in the state that the loops for the ships before it
  have left; and those of \<open>SHIP_SIZES\<close> from the state in which the generator starts.
\<close>

fun fittingSizes :: "(nat \<Rightarrow> real) \<Rightarrow> Placing \<Rightarrow> int list \<Rightarrow> int list" where
  "fittingSizes rnd st [] = []"
| "fittingSizes rnd st (sz # sizes) =
     (case tryPlace rnd st sz 0 of
        Inl e \<Rightarrow> []
      | Inr st' \<Rightarrow> (if everFits rnd st sz then [sz] else []) @ fittingSizes rnd st' sizes)"

definition fittingFleet :: "(nat \<Rightarrow> real) \<Rightarrow> int list" where
  "fittingFleet rnd =
     fittingSizes rnd \<lparr>p_board = createEmptyBoard, p_ships = [], p_shipId = 1, p_calls = 0\<rparr>
       SHIP_SIZES"

section \<open>Auxiliary notions of the proofs\<close>

text \<open>The cells that a ship of size \<open>sz\<close> anchored at \<open>(x, y)\<close> covers.\<close>

definition shipPos :: "int \<Rightarrow> int \<Rightarrow> int \<Rightarrow> bool \<Rightarrow> (int \<times> int) set" where
  "shipPos x y sz horizontal =
     (\<lambda>i. (if horizontal then x + i else x, if horizontal then y else y + i)) ` {0..<sz}"

text \<open>No cell of the 3 by 3 block around \<open>p\<close> is occupied.\<close>

definition clearAround :: "Board \<Rightarrow> int \<times> int \<Rightarrow> bool" where
  "clearAround board p \<longleftrightarrow>
     (\<forall>d \<in> set offsets. \<forall>c. getCell board (fst p + fst d) (snd p + snd d) = Some c \<longrightarrow> \<not> hasShip c)"

text \<open>
  The loop invariant of \<^verbatim>\<open>placeShipsRandomly\<close>: ids \<open>1\<close> to \<open>shipId - 1\<close> are in use,
  no cell was fired at, ships are apart, and sizes count cells.
\<close>

definition placedInv :: "Placing \<Rightarrow> bool" where
  "placedInv st \<longleftrightarrow>
     wf_board (p_board st) \<and> 1 \<le> p_shipId st \<and>
     (\<forall>p \<in> set allCoords. \<forall>c. getCell (p_board st) (fst p) (snd p) = Some c \<longrightarrow>
        \<not> hit c \<and> (hasShip c \<longleftrightarrow> shipId c \<noteq> None) \<and>
        (\<forall>k. shipId c = Some k \<longrightarrow> 1 \<le> k \<and> k < p_shipId st)) \<and>
     separated (p_board st) \<and>
     map fst (p_ships st) = [1..p_shipId st - 1] \<and>
     (\<forall>e \<in> set (p_ships st).
        id_ship (snd e) = fst e \<and> hits (snd e) = 0 \<and>
        size_ship (snd e) = int (length (shipCells (p_board st) (fst e)))) \<and>
     int (length (occupiedCells (p_board st))) = sum_list (shipSizes (p_ships st))"

text \<open>The references of a clone made when the heap has \<open>n\<close> objects: consecutive.\<close>

fun freshRows :: "nat \<Rightarrow> 'a list list \<Rightarrow> nat list list" where
  "freshRows n [] = []"
| "freshRows n (row # rows) = [n..<n + length row] # freshRows (n + length row) rows"

section \<open>Concrete inputs\<close>

text \<open>A random source that always gives the same number.\<close>

definition constDraws :: "real \<Rightarrow> nat \<Rightarrow> real" where
  "constDraws r n = r"

text \<open>A random source that gives the numbers of a list, then \<open>0\<close>.\<close>

definition listDraws :: "real list \<Rightarrow> nat \<Rightarrow> real" where
  "listDraws rs n = (if n < length rs then rs ! n else 0)"

text \<open>
  Draws that place all ten ships: the second ship fails once at the origin, then every
  attempt succeeds (three draws per attempt: orientation, column, row).
\<close>

definition fullDraws :: "real list" where
  "fullDraws = [0, 0, 0,  0, 0, 0,  0, 0, 1/5,  0, 0, 2/5,  0, 0, 3/5,  0, 0, 4/5,
     0, 5/9, 0,  0, 1/2, 1/5,  0, 1/2, 2/5,  0, 1/2, 3/5,  0, 1/2, 4/5]"

text \<open>The board and the fleet that the generator returns for a random source.\<close>

definition placedBoard :: "(nat \<Rightarrow> real) \<Rightarrow> Board" where
  "placedBoard rnd = (case placeShipsRandomly rnd of Inl e \<Rightarrow> [] | Inr r \<Rightarrow> fst r)"

definition placedShips :: "(nat \<Rightarrow> real) \<Rightarrow> Fleet" where
  "placedShips rnd = (case placeShipsRandomly rnd of Inl e \<Rightarrow> [] | Inr r \<Rightarrow> snd r)"

text \<open>The game after \<^verbatim>\<open>newGame\<close> when every draw is \<open>0\<close>: one ship of size 4 on each side.\<close>

definition demoGame :: Game where
  "demoGame = initialGame
     \<lparr>playerBoard := placedBoard (constDraws 0), cpuBoard := placedBoard (constDraws 0),
      playerShips := placedShips (constDraws 0), cpuShips := placedShips (constDraws 0)\<rparr>"

text \<open>The state after a list of shot requests (the state itself, should one of them fail).\<close>

definition stateAfter :: "Game \<Rightarrow> request list \<Rightarrow> Game" where
  "stateAfter g qs = (case serveAll g qs of Inl e \<Rightarrow> g | Inr g' \<Rightarrow> g')"

text \<open>
  \<open>demoGame\<close> after the player has missed and the CPU has hit three cells of the player's
  ship: it is the CPU's turn, and one cell of the ship is left.
\<close>

definition cpuLastGame :: Game where
  "cpuLastGame = stateAfter demoGame [PlayerShot 5 5, CpuShot 0, CpuShot 0, CpuShot 0]"

text \<open>
  Then the CPU misses and the player hits three cells of the CPU's ship: it is the
  player's turn, and one cell of each ship is left.
\<close>

definition playerLastGame :: Game where
  "playerLastGame =
     stateAfter cpuLastGame [CpuShot (1 / 2), PlayerShot 0 0, PlayerShot 1 0, PlayerShot 2 0]"

text \<open>
  A game that ends with a timer pending. In \<open>demoGame\<close> the player misses, which sets a
  timer, and starts a new game before the timer fires (\<^verbatim>\<open>newGame\<close> clears no timer and
  gives the turn back to the player); the player misses again, which sets a second timer.
  Each timer fires and, at a hit, sets its successor: the shots of the two chains
  alternate, and the fourth sinks the player's only ship. The CPU has won, and the timer
  that the third shot has set is still pending.
\<close>

definition restartedGame :: Game where
  "restartedGame =
     (case newGame (constDraws 0) (stateAfter demoGame [PlayerShot 5 5]) of
        Inl e \<Rightarrow> demoGame
      | Inr g \<Rightarrow> g)"

definition finishedGame :: Game where
  "finishedGame =
     stateAfter restartedGame [PlayerShot 5 5, CpuShot 0, CpuShot 0, CpuShot 0, CpuShot 0]"

text \<open>The board of \<open>demoGame\<close> laid out on a heap, row by row.\<close>

definition demoHeap :: Heap where
  "demoHeap = concat (placedBoard (constDraws 0))"

definition demoRefs :: BoardRef where
  "demoRefs = freshRows 0 (placedBoard (constDraws 0))"

section \<open>Reading and writing cells\<close>

lemma set_allCoords: "set allCoords = {p. inBounds (fst p) (snd p)}"
  by (force simp: allCoords_def inBounds_def BOARD_SIZE_def)

lemma distinct_allCoords: "distinct allCoords"
  unfolding allCoords_def
  by (rule distinct_concat) (auto simp: distinct_map inj_on_def)

lemma wf_getCell: "wf_board b \<Longrightarrow> inBounds x y \<Longrightarrow> getCell b x y = Some (b ! nat y ! nat x)"
  by (auto simp: wf_board_def inBounds_def getCell_def list_all_length)

lemma wf_getCell_iff: "wf_board b \<Longrightarrow> getCell b x y \<noteq> None \<longleftrightarrow> inBounds x y"
  by (auto simp: wf_board_def inBounds_def getCell_def list_all_length)

lemma wf_createEmptyBoard: "wf_board createEmptyBoard"
  by (simp add: wf_board_def createEmptyBoard_def list_all_iff)

lemma getCell_createEmptyBoard: "inBounds x y \<Longrightarrow> getCell createEmptyBoard x y = Some emptyCell"
  by (simp add: wf_getCell wf_createEmptyBoard) (simp add: createEmptyBoard_def inBounds_def)

lemma wf_setCell: "wf_board b \<Longrightarrow> wf_board (setCell b x y c)"
  by (cases "nat y < length b") (auto simp: wf_board_def setCell_def list_all_length nth_list_update)

lemma getCell_setCell:
  "wf_board b \<Longrightarrow> inBounds x y \<Longrightarrow>
   getCell (setCell b x y c) x' y' = (if x' = x \<and> y' = y then Some c else getCell b x' y')"
  by (auto simp: wf_board_def inBounds_def getCell_def setCell_def list_all_length nth_list_update)

lemma cloneBoard_id: "cloneBoard b = b"
  by (simp add: cloneBoard_def)

lemma set_cellsWhere:
  "set (cellsWhere P b) =
     {p. inBounds (fst p) (snd p) \<and> (\<exists>c. getCell b (fst p) (snd p) = Some c \<and> P c)}"
  by (auto simp: cellsWhere_def set_allCoords split: option.splits)

lemma distinct_cellsWhere: "distinct (cellsWhere P b)"
  by (simp add: cellsWhere_def distinct_allCoords)

lemma length_cellsWhere: "length (cellsWhere P b) = card (set (cellsWhere P b))"
  by (simp add: distinct_card distinct_cellsWhere)

lemma cellsWhere_cong:
  "(\<And>x y. inBounds x y \<Longrightarrow>
      (case getCell b x y of None \<Rightarrow> False | Some c \<Rightarrow> P c) =
      (case getCell b' x y of None \<Rightarrow> False | Some c \<Rightarrow> Q c)) \<Longrightarrow>
   cellsWhere P b = cellsWhere Q b'"
  unfolding cellsWhere_def by (rule filter_cong) (auto simp: set_allCoords)

lemma cellsWhere_createEmptyBoard: "\<not> P emptyCell \<Longrightarrow> cellsWhere P createEmptyBoard = []"
  by (auto simp: cellsWhere_def filter_empty_conv set_allCoords getCell_createEmptyBoard)

lemma inBounds_demo: "inBounds 0 0" "inBounds 5 5"
  by (simp_all add: inBounds_def BOARD_SIZE_def)

text \<open>Forms of the predicates that can be evaluated.\<close>

lemma all_Some_case:
  "(\<forall>c. opt = Some c \<longrightarrow> P c) \<longleftrightarrow> (case opt of None \<Rightarrow> True | Some c \<Rightarrow> P c)"
  by (cases opt) simp_all

lemma clearAround_code [code]:
  "clearAround board p \<longleftrightarrow>
     list_all (\<lambda>d. case getCell board (fst p + fst d) (snd p + snd d) of
                     None \<Rightarrow> True | Some c \<Rightarrow> \<not> hasShip c) offsets"
  by (simp only: clearAround_def all_Some_case list_all_iff)

lemma cellsLinked_code [code]:
  "cellsLinked board ships \<longleftrightarrow>
     list_all (\<lambda>p. case getCell board (fst p) (snd p) of
                     None \<Rightarrow> True
                   | Some c \<Rightarrow> (hasShip c \<longleftrightarrow> shipId c \<noteq> None) \<and>
                       (case shipId c of None \<Rightarrow> True
                        | Some k \<Rightarrow> k \<noteq> 0 \<and> k \<in> fst ` set ships)) allCoords"
  by (simp only: cellsLinked_def all_Some_case list_all_iff)

lemma cellInv_code [code]:
  "cellInv board \<longleftrightarrow>
     list_all (\<lambda>p. case getCell board (fst p) (snd p) of
                     None \<Rightarrow> True | Some c \<Rightarrow> (shipId c \<noteq> None \<longleftrightarrow> hasShip c)) allCoords"
  by (simp only: cellInv_def all_Some_case list_all_iff)

lemma firedKept_code [code]:
  "firedKept b b' \<longleftrightarrow>
     list_all (\<lambda>p. case getCell b (fst p) (snd p) of
                     None \<Rightarrow> True
                   | Some c \<Rightarrow> hit c \<longrightarrow>
                       (case getCell b' (fst p) (snd p) of None \<Rightarrow> False | Some c' \<Rightarrow> hit c'))
       allCoords"
proof -
  have "(\<exists>c'. opt = Some c' \<and> hit c') \<longleftrightarrow> (case opt of None \<Rightarrow> False | Some c' \<Rightarrow> hit c')"
    for opt :: "Cell option"
    by (cases opt) simp_all
  then show ?thesis
    by (simp only: firedKept_def all_Some_case list_all_iff)
qed

lemma placedInv_code [code]:
  "placedInv st \<longleftrightarrow>
     wf_board (p_board st) \<and> 1 \<le> p_shipId st \<and>
     list_all (\<lambda>p. case getCell (p_board st) (fst p) (snd p) of
                     None \<Rightarrow> True
                   | Some c \<Rightarrow> \<not> hit c \<and> (hasShip c \<longleftrightarrow> shipId c \<noteq> None) \<and>
                       (case shipId c of None \<Rightarrow> True
                        | Some k \<Rightarrow> 1 \<le> k \<and> k < p_shipId st)) allCoords \<and>
     separated (p_board st) \<and>
     map fst (p_ships st) = [1..p_shipId st - 1] \<and>
     list_all (\<lambda>e. id_ship (snd e) = fst e \<and> hits (snd e) = 0 \<and>
        size_ship (snd e) = int (length (shipCells (p_board st) (fst e)))) (p_ships st) \<and>
     int (length (occupiedCells (p_board st))) = sum_list (shipSizes (p_ships st))"
  by (simp only: placedInv_def all_Some_case list_all_iff)

section \<open>The placement test and the write loop\<close>

lemma scanNeighbours_wf:
  "wf_board b \<Longrightarrow>
   scanNeighbours b cx cy ds =
     Inr (\<forall>d \<in> set ds. \<forall>c. getCell b (cx + fst d) (cy + snd d) = Some c \<longrightarrow> \<not> hasShip c)"
proof (induction ds)
  case Nil
  then show ?case by simp
next
  case (Cons d ds)
  obtain dx dy where d: "d = (dx, dy)" by (cases d)
  show ?case
  proof (cases "inBounds (cx + dx) (cy + dy)")
    case True
    with Cons show ?thesis by (auto simp: d wf_getCell)
  next
    case False
    with Cons.prems have "getCell b (cx + dx) (cy + dy) = None"
      using wf_getCell_iff by blast
    with False Cons show ?thesis by (simp add: d)
  qed
qed

lemma canPlaceFrom_wf:
  "wf_board b \<Longrightarrow>
   canPlaceFrom b x y sz h i =
     Inr (\<forall>j. i \<le> j \<and> j < sz \<longrightarrow>
            inBounds (if h then x + j else x) (if h then y else y + j) \<and>
            clearAround b (if h then x + j else x, if h then y else y + j))"
proof (induction b x y sz h i rule: canPlaceFrom.induct)
  case (1 board x y sz horizontal i)
  define P where "P j \<longleftrightarrow> inBounds (if horizontal then x + j else x) (if horizontal then y else y + j) \<and>
            clearAround board (if horizontal then x + j else x, if horizontal then y else y + j)" for j
  define cx where "cx = (if horizontal then x + i else x)"
  define cy where "cy = (if horizontal then y else y + i)"
  have scan: "scanNeighbours board cx cy offsets = Inr (clearAround board (cx, cy))"
    using 1(2) by (simp add: scanNeighbours_wf clearAround_def)
  have unfold: "canPlaceFrom board x y sz horizontal i =
     (if i < sz then
        (if \<not> inBounds cx cy then Inr False
         else if scanNeighbours board cx cy offsets = Inr True
         then canPlaceFrom board x y sz horizontal (i + 1)
         else scanNeighbours board cx cy offsets)
      else Inr True)"
    unfolding cx_def cy_def by (rule canPlaceFrom.simps)
  have Pi: "P i \<longleftrightarrow> inBounds cx cy \<and> clearAround board (cx, cy)"
    by (simp add: P_def cx_def cy_def)
  show ?case
  proof (cases "i < sz")
    case False
    then show ?thesis unfolding unfold by auto
  next
    case True
    have split: "(\<forall>j. i \<le> j \<and> j < sz \<longrightarrow> P j) \<longleftrightarrow> P i \<and> (\<forall>j. i + 1 \<le> j \<and> j < sz \<longrightarrow> P j)"
      using True by (metis add1_zle_eq order_le_less)
    show ?thesis
    proof (cases "P i")
      case False
      with True show ?thesis
        unfolding unfold P_def[symmetric] split scan Pi by auto
    next
      case PT: True
      then have scanT: "scanNeighbours board cx cy offsets = Inr True"
        using scan Pi by simp
      have "canPlaceFrom board x y sz horizontal (i + 1) =
         Inr (\<forall>j. i + 1 \<le> j \<and> j < sz \<longrightarrow> P j)"
        unfolding P_def
        using 1(1)[OF True _ _ 1(2)] PT scanT Pi by (simp add: cx_def cy_def)
      with True PT scanT show ?thesis
        unfolding unfold P_def[symmetric] split Pi by simp
    qed
  qed
qed

lemma canPlaceShip_wf:
  "wf_board b \<Longrightarrow>
   canPlaceShip b x y sz h =
     Inr (\<forall>p \<in> shipPos x y sz h. inBounds (fst p) (snd p) \<and> clearAround b p)"
  by (auto simp: canPlaceShip_def canPlaceFrom_wf shipPos_def)

lemma writeShip_wf: "wf_board b \<Longrightarrow> wf_board (writeShip b x y sz h sid i)"
proof (induction b x y sz h sid i rule: writeShip.induct)
  case (1 board x y sz horizontal sid i)
  then show ?case
    by (subst writeShip.simps) (auto simp: wf_setCell)
qed

lemma getCell_writeShip:
  "wf_board b \<Longrightarrow>
   (\<forall>j. i \<le> j \<and> j < sz \<longrightarrow> inBounds (if h then x + j else x) (if h then y else y + j)) \<Longrightarrow>
   getCell (writeShip b x y sz h sid i) x' y' =
     (if \<exists>j. i \<le> j \<and> j < sz \<and> x' = (if h then x + j else x) \<and> y' = (if h then y else y + j)
      then Some \<lparr>hasShip = True, hit = False, shipId = Some sid\<rparr>
      else getCell b x' y')"
proof (induction b x y sz h sid i rule: writeShip.induct)
  case (1 board x y sz horizontal sid i)
  define Q where "Q j \<longleftrightarrow> x' = (if horizontal then x + j else x) \<and> y' = (if horizontal then y else y + j)" for j
  define cx where "cx = (if horizontal then x + i else x)"
  define cy where "cy = (if horizontal then y else y + i)"
  define c where "c = \<lparr>hasShip = True, hit = False, shipId = Some sid\<rparr>"
  have unfold: "writeShip board x y sz horizontal sid i =
     (if i < sz then writeShip (setCell board cx cy c) x y sz horizontal sid (i + 1) else board)"
    unfolding cx_def cy_def c_def by (rule writeShip.simps)
  show ?case
  proof (cases "i < sz")
    case False
    then show ?thesis unfolding unfold by auto
  next
    case True
    have inb: "inBounds cx cy"
      using 1(3) True by (simp add: cx_def cy_def)
    have IH: "getCell (writeShip (setCell board cx cy c) x y sz horizontal sid (i + 1)) x' y' =
     (if \<exists>j. i + 1 \<le> j \<and> j < sz \<and> Q j then Some c else getCell (setCell board cx cy c) x' y')"
      unfolding Q_def c_def cx_def cy_def
      using 1(1)[OF True wf_setCell[OF 1(2)]] 1(3) by simp
    have ex: "(\<exists>j. i \<le> j \<and> j < sz \<and> Q j) \<longleftrightarrow> Q i \<or> (\<exists>j. i + 1 \<le> j \<and> j < sz \<and> Q j)"
      using True by (metis add1_zle_eq order_le_less)
    have Qi: "Q i \<longleftrightarrow> x' = cx \<and> y' = cy"
      by (simp add: Q_def cx_def cy_def)
    have "getCell (writeShip board x y sz horizontal sid i) x' y' =
       (if \<exists>j. i \<le> j \<and> j < sz \<and> Q j then Some c else getCell board x' y')"
      using True unfolding unfold ex Qi by (simp add: IH getCell_setCell[OF 1(2) inb]) blast
    then show ?thesis unfolding Q_def c_def by simp
  qed
qed

lemma getCell_writeShip0:
  "wf_board b \<Longrightarrow> \<forall>p \<in> shipPos x y sz h. inBounds (fst p) (snd p) \<Longrightarrow>
   getCell (writeShip b x y sz h sid 0) x' y' =
     (if (x', y') \<in> shipPos x y sz h
      then Some \<lparr>hasShip = True, hit = False, shipId = Some sid\<rparr>
      else getCell b x' y')"
  by (subst getCell_writeShip) (auto simp: shipPos_def)

lemma set_offsets: "set offsets = {-1, 0, 1} \<times> {-1, 0, 1}"
  by (auto simp: offsets_def)

lemma clearAround_near:
  assumes "clearAround b p" and "chebyshev p q < 2" and "getCell b (fst q) (snd q) = Some c"
  shows "\<not> hasShip c"
proof -
  define d where "d = (fst q - fst p, snd q - snd p)"
  have a: "\<bar>fst p - fst q\<bar> < 2" "\<bar>snd p - snd q\<bar> < 2"
    using assms(2) by (simp_all add: chebyshev_def)
  have "fst d = -1 \<or> fst d = 0 \<or> fst d = 1"
    using a(1) unfolding d_def fst_conv by linarith
  moreover have "snd d = -1 \<or> snd d = 0 \<or> snd d = 1"
    using a(2) unfolding d_def snd_conv by linarith
  ultimately have "d \<in> set offsets"
    unfolding set_offsets by (cases d) (simp, blast)
  then have "\<forall>c. getCell b (fst p + fst d) (snd p + snd d) = Some c \<longrightarrow> \<not> hasShip c"
    using assms(1) unfolding clearAround_def by blast
  moreover have "fst p + fst d = fst q" "snd p + snd d = snd q"
    by (simp_all add: d_def)
  ultimately show ?thesis
    using assms(3) by simp
qed

lemma chebyshev_sym: "chebyshev p q = chebyshev q p"
  by (simp add: chebyshev_def abs_minus_commute)

lemma chebyshev_self: "chebyshev p p = 0"
  by (simp add: chebyshev_def)

lemma card_shipPos: "card (shipPos x y sz h) = nat sz"
proof -
  have "inj_on (\<lambda>i. (if h then x + i else x, if h then y else y + i)) {0..<sz}"
    by (auto simp: inj_on_def)
  then show ?thesis
    by (simp add: shipPos_def card_image)
qed

lemma update_fresh: "k \<notin> fst ` set al \<Longrightarrow> AList.update k v al = al @ [(k, v)]"
  by (induction al) auto

lemma shipSizes_append [simp]: "shipSizes (xs @ ys) = shipSizes xs @ shipSizes ys"
  by (simp add: shipSizes_def)

lemma shipSizes_simps [simp]: "shipSizes [] = []" "shipSizes (e # es) = size_ship (snd e) # shipSizes es"
  by (simp_all add: shipSizes_def)

section \<open>Placement keeps its invariant\<close>

lemma place_step:
  assumes inv: "placedInv st" and sz: "0 \<le> sz"
    and can: "canPlaceShip (p_board st) x y sz h = Inr True"
  shows "placedInv \<lparr>p_board = writeShip (p_board st) x y sz h (p_shipId st) 0,
            p_ships = AList.update (p_shipId st)
               \<lparr>id_ship = p_shipId st, size_ship = sz, hits = 0\<rparr> (p_ships st),
            p_shipId = p_shipId st + 1, p_calls = n\<rparr>"
proof -
  define b where "b = p_board st"
  define sid where "sid = p_shipId st"
  define ships where "ships = p_ships st"
  define S where "S = shipPos x y sz h"
  define newc where "newc = \<lparr>hasShip = True, hit = False, shipId = Some sid\<rparr>"
  define b' where "b' = writeShip b x y sz h sid 0"
  define v where "v = \<lparr>id_ship = sid, size_ship = sz, hits = 0\<rparr>"
  have wf: "wf_board b" and sid1: "1 \<le> sid"
    and cells: "\<And>p c. inBounds (fst p) (snd p) \<Longrightarrow> getCell b (fst p) (snd p) = Some c \<Longrightarrow>
        \<not> hit c \<and> (hasShip c \<longleftrightarrow> shipId c \<noteq> None) \<and>
        (\<forall>k. shipId c = Some k \<longrightarrow> 1 \<le> k \<and> k < sid)"
    and sep: "separated b"
    and keys: "map fst ships = [1..sid - 1]"
    and ships: "\<And>e. e \<in> set ships \<Longrightarrow> id_ship (snd e) = fst e \<and> hits (snd e) = 0 \<and>
        size_ship (snd e) = int (length (shipCells b (fst e)))"
    and occ: "int (length (occupiedCells b)) = sum_list (shipSizes ships)"
    using inv unfolding placedInv_def b_def sid_def ships_def set_allCoords by auto
  have S: "\<And>p. p \<in> S \<Longrightarrow> inBounds (fst p) (snd p) \<and> clearAround b p"
    using can canPlaceShip_wf[OF wf, of x y sz h] unfolding b_def[symmetric] S_def by simp
  have get: "getCell b' x' y' = (if (x', y') \<in> S then Some newc else getCell b x' y')" for x' y'
    unfolding b'_def S_def newc_def
    by (rule getCell_writeShip0[OF wf]) (use S in \<open>simp add: S_def\<close>)
  have wf': "wf_board b'"
    unfolding b'_def by (rule writeShip_wf[OF wf])
  have S_free: "\<not> hasShip c" if "p \<in> S" "getCell b (fst p) (snd p) = Some c" for p c
    using clearAround_near[of b p p c] S[OF that(1)] that(2) by (simp add: chebyshev_self)
  have S_sub: "S \<subseteq> {p. inBounds (fst p) (snd p)}"
    using S by auto
  \<comment> \<open>the cells of the new board\<close>
  have setP: "set (cellsWhere P b') = (if P newc then S else {}) \<union> (set (cellsWhere P b) - S)" for P
    unfolding set_cellsWhere using S_sub by (auto simp: get)
  have occ_disj: "set (occupiedCells b) \<inter> S = {}"
    unfolding occupiedCells_def set_cellsWhere using S_free by auto
  have finS: "finite S"
    unfolding S_def shipPos_def by simp
  have cardS: "card S = nat sz"
    unfolding S_def by (rule card_shipPos)
  have occ': "int (length (occupiedCells b')) = sum_list (shipSizes (ships @ [(sid, v)]))"
  proof -
    have "set (occupiedCells b') = S \<union> set (occupiedCells b)"
      unfolding occupiedCells_def setP using occ_disj unfolding occupiedCells_def
      by (auto simp: newc_def)
    then have "card (set (occupiedCells b')) = card S + card (set (occupiedCells b))"
      using occ_disj finS by (simp add: card_Un_disjoint Int_commute)
    then have "length (occupiedCells b') = nat sz + length (occupiedCells b)"
      unfolding occupiedCells_def length_cellsWhere cardS by simp
    then show ?thesis
      using occ sz by (simp add: v_def)
  qed
  have fresh: "sid \<notin> fst ` set ships"
  proof -
    have "fst ` set ships = set [1..sid - 1]"
      using keys by (metis set_map)
    then show ?thesis by simp
  qed
  have upd: "AList.update sid v ships = ships @ [(sid, v)]"
    by (rule update_fresh[OF fresh])
  have keys': "map fst (ships @ [(sid, v)]) = [1..sid + 1 - 1]"
    using keys sid1 upto_rec2[of 1 sid] by simp
  have no_sid: "shipId c \<noteq> Some sid" if "inBounds (fst p) (snd p)" "getCell b (fst p) (snd p) = Some c" for p c
    using cells[OF that] by auto
  have new_cells: "length (shipCells b' sid) = nat sz"
  proof -
    have "set (cellsWhere (\<lambda>c. shipId c = Some sid) b) = {}"
      unfolding set_cellsWhere using no_sid by auto
    then have "set (shipCells b' sid) = S"
      unfolding shipCells_def setP by (simp add: newc_def)
    then show ?thesis
      unfolding shipCells_def length_cellsWhere using cardS by simp
  qed
  have old_cells: "shipCells b' k = shipCells b k" if "k \<noteq> sid" for k
    unfolding shipCells_def
  proof (rule cellsWhere_cong)
    fix x' y' assume "inBounds x' y'"
    show "(case getCell b' x' y' of None \<Rightarrow> False | Some c \<Rightarrow> shipId c = Some k) =
          (case getCell b x' y' of None \<Rightarrow> False | Some c \<Rightarrow> shipId c = Some k)"
    proof (cases "(x', y') \<in> S")
      case True
      obtain c where c: "getCell b x' y' = Some c"
        using wf_getCell[OF wf \<open>inBounds x' y'\<close>] by simp
      have "\<not> hasShip c" using S_free[OF True] c by simp
      then have "shipId c = None"
        using cells[of "(x', y')" c] \<open>inBounds x' y'\<close> c by simp
      then show ?thesis using True c that by (simp add: get newc_def)
    next
      case False
      then show ?thesis by (simp add: get)
    qed
  qed
  have ships': "id_ship (snd e) = fst e \<and> hits (snd e) = 0 \<and>
        size_ship (snd e) = int (length (shipCells b' (fst e)))" if "e \<in> set (ships @ [(sid, v)])" for e
  proof (cases "e \<in> set ships")
    case True
    then have "fst e \<noteq> sid" using fresh by auto
    then show ?thesis using ships[OF True] old_cells by simp
  next
    case False
    then have "e = (sid, v)" using that by simp
    then show ?thesis using new_cells sz by (simp add: v_def)
  qed
  have cells': "\<not> hit c \<and> (hasShip c \<longleftrightarrow> shipId c \<noteq> None) \<and>
        (\<forall>k. shipId c = Some k \<longrightarrow> 1 \<le> k \<and> k < sid + 1)"
    if "inBounds (fst p) (snd p)" "getCell b' (fst p) (snd p) = Some c" for p c
  proof (cases "p \<in> S")
    case True
    then have "c = newc" using that(2) get[of "fst p" "snd p"] by simp
    then show ?thesis using sid1 by (simp add: newc_def)
  next
    case False
    then have "getCell b (fst p) (snd p) = Some c" using that(2) get[of "fst p" "snd p"] by simp
    then show ?thesis using cells[OF that(1)] by force
  qed
  have shipAt': "shipAt b' p = (if p \<in> S then Some sid else shipAt b p)" for p
    unfolding shipAt_def using get[of "fst p" "snd p"] by (simp add: newc_def)
  have occ_set': "set (occupiedCells b') = S \<union> set (occupiedCells b)"
    unfolding occupiedCells_def setP using occ_disj unfolding occupiedCells_def
    by (auto simp: newc_def)
  have far: "chebyshev p q \<ge> 2" if pS: "p \<in> S" and qo: "q \<in> set (occupiedCells b)" for p q
  proof (rule ccontr)
    assume "\<not> 2 \<le> chebyshev p q"
    then have near: "chebyshev p q < 2" by simp
    obtain c where "getCell b (fst q) (snd q) = Some c" "hasShip c"
      using qo unfolding occupiedCells_def set_cellsWhere by auto
    then show False
      using clearAround_near[OF _ near] S[OF pS] by blast
  qed
  have sep': "separated b'"
    unfolding separated_def
  proof (intro ballI impI)
    fix p q assume p: "p \<in> set (occupiedCells b')" and q: "q \<in> set (occupiedCells b')"
      and ne: "shipAt b' p \<noteq> shipAt b' q"
    consider "p \<in> S" "q \<in> S" | "p \<in> S" "q \<notin> S" | "p \<notin> S" "q \<in> S" | "p \<notin> S" "q \<notin> S"
      by blast
    then show "2 \<le> chebyshev p q"
    proof cases
      case 1
      then show ?thesis using ne shipAt' by simp
    next
      case 2
      then have "q \<in> set (occupiedCells b)" using q occ_set' by blast
      then show ?thesis using far 2 by blast
    next
      case 3
      then have "p \<in> set (occupiedCells b)" using p occ_set' by blast
      then show ?thesis using far[of q p] 3 by (simp add: chebyshev_sym)
    next
      case 4
      then have "p \<in> set (occupiedCells b)" "q \<in> set (occupiedCells b)" "shipAt b p \<noteq> shipAt b q"
        using p q ne occ_set' shipAt' by auto
      then show ?thesis using sep unfolding separated_def by blast
    qed
  qed
  show ?thesis
    unfolding placedInv_def b_def[symmetric] sid_def[symmetric] ships_def[symmetric]
      v_def[symmetric] set_allCoords
    apply (simp only: Placing.simps b'_def[symmetric] upd)
    using wf' sid1 cells' sep' keys' ships' occ' by auto
qed

lemma placedInv_calls: "placedInv st \<Longrightarrow> placedInv (st\<lparr>p_calls := n\<rparr>)"
  by (simp add: placedInv_def)

lemma tryPlace_inv:
  "placedInv st \<Longrightarrow> 0 \<le> sz \<Longrightarrow>
   \<exists>st'. tryPlace rnd st sz a = Inr st' \<and> placedInv st' \<and>
     (shipSizes (p_ships st') = shipSizes (p_ships st) \<or>
      shipSizes (p_ships st') = shipSizes (p_ships st) @ [sz])"
proof (induction rnd st sz a rule: tryPlace.induct)
  case (1 rnd st sz attempts)
  show ?case
  proof (cases "attempts < 500")
    case False
    then show ?thesis using 1(2) by (subst tryPlace.simps) simp
  next
    case True
    define h where "h = (rnd (p_calls st) < 1 / 2)"
    define x where "x = \<lfloor>rnd (p_calls st + 1)
                    * of_int (if h then BOARD_SIZE - sz + 1 else BOARD_SIZE)\<rfloor>"
    define y where "y = \<lfloor>rnd (p_calls st + 2)
                    * of_int (if h then BOARD_SIZE else BOARD_SIZE - sz + 1)\<rfloor>"
    have wf: "wf_board (p_board st)" using 1(2) by (simp add: placedInv_def)
    obtain ok where ok: "canPlaceShip (p_board st) x y sz h = Inr ok"
      using canPlaceShip_wf[OF wf] by blast
    have unfold: "tryPlace rnd st sz attempts =
       (if \<not> ok then tryPlace rnd (st\<lparr>p_calls := p_calls st + 3\<rparr>) sz (attempts + 1)
        else Inr \<lparr>p_board = writeShip (p_board st) x y sz h (p_shipId st) 0,
                  p_ships = AList.update (p_shipId st)
                     \<lparr>id_ship = p_shipId st, size_ship = sz, hits = 0\<rparr> (p_ships st),
                  p_shipId = p_shipId st + 1,
                  p_calls = p_calls st + 3\<rparr>)"
      using True ok by (subst tryPlace.simps) (simp add: Let_def h_def x_def y_def)
    show ?thesis
    proof (cases ok)
      case False
      have "\<exists>st'. tryPlace rnd (st\<lparr>p_calls := p_calls st + 3\<rparr>) sz (attempts + 1) = Inr st' \<and> placedInv st' \<and>
         (shipSizes (p_ships st') = shipSizes (p_ships (st\<lparr>p_calls := p_calls st + 3\<rparr>)) \<or>
          shipSizes (p_ships st') = shipSizes (p_ships (st\<lparr>p_calls := p_calls st + 3\<rparr>)) @ [sz])"
        using 1(1)[OF True h_def x_def y_def ok False placedInv_calls[OF 1(2)] 1(3)] .
      then show ?thesis unfolding unfold using False by simp
    next
      case okT: True
      have fresh: "p_shipId st \<notin> fst ` set (p_ships st)"
      proof -
        have "fst ` set (p_ships st) = set [1..p_shipId st - 1]"
          using 1(2) unfolding placedInv_def by (metis set_map)
        then show ?thesis by simp
      qed
      have can: "canPlaceShip (p_board st) x y sz h = Inr True"
        using ok okT by simp
      show ?thesis
        unfolding unfold using okT place_step[OF 1(2) 1(3) can]
        by (simp add: update_fresh[OF fresh])
    qed
  qed
qed

lemma placeAll_inv:
  "placedInv st \<Longrightarrow> \<forall>sz \<in> set sizes. 0 \<le> sz \<Longrightarrow>
   \<exists>st' zs. placeAll rnd st sizes = Inr st' \<and> placedInv st' \<and>
     shipSizes (p_ships st') = shipSizes (p_ships st) @ zs \<and>
     subseq zs sizes"
proof (induction sizes arbitrary: st)
  case Nil
  then show ?case by simp
next
  case (Cons sz sizes)
  obtain st1 where st1: "tryPlace rnd st sz 0 = Inr st1" "placedInv st1"
    and s1: "shipSizes (p_ships st1) = shipSizes (p_ships st) \<or>
      shipSizes (p_ships st1) = shipSizes (p_ships st) @ [sz]"
    using tryPlace_inv[OF Cons.prems(1), of sz rnd 0] Cons.prems(2) by fastforce
  have pos: "\<forall>sz \<in> set sizes. 0 \<le> sz" using Cons.prems(2) by simp
  obtain st' zs where st': "placeAll rnd st1 sizes = Inr st'" "placedInv st'"
     "shipSizes (p_ships st') = shipSizes (p_ships st1) @ zs"
     "subseq zs sizes"
    using Cons.IH[OF st1(2) pos] by blast
  from s1 show ?case
  proof
    assume "shipSizes (p_ships st1) = shipSizes (p_ships st)"
    then show ?thesis using st1 st' by (auto intro!: exI[of _ zs])
  next
    assume "shipSizes (p_ships st1) = shipSizes (p_ships st) @ [sz]"
    then show ?thesis using st1 st' by (auto intro!: exI[of _ "sz # zs"])
  qed
qed

lemma placedInv_init:
  "placedInv \<lparr>p_board = createEmptyBoard, p_ships = [], p_shipId = 1, p_calls = 0\<rparr>"
  unfolding placedInv_def
  by (auto simp: wf_createEmptyBoard set_allCoords getCell_createEmptyBoard emptyCell_def
      separated_def occupiedCells_def cellsWhere_createEmptyBoard)

lemma placing_inv:
  "\<exists>st. placing rnd = Inr st \<and> placedInv st \<and> subseq (shipSizes (p_ships st)) SHIP_SIZES"
proof -
  have "\<forall>sz \<in> set SHIP_SIZES. 0 \<le> sz" by (simp add: SHIP_SIZES_def)
  from placeAll_inv[OF placedInv_init this, of rnd] show ?thesis
    unfolding placing_def by auto
qed

lemma placeShipsRandomly_placing:
  "placing rnd = Inr st \<Longrightarrow> placeShipsRandomly rnd = Inr (p_board st, p_ships st)"
  by (simp add: placeShipsRandomly_def)

section \<open>The ships that find a place\<close>

lemma floor_scaled:
  fixes r :: real
  assumes "0 \<le> r" and "r < 1" and "0 < k"
  shows "0 \<le> \<lfloor>r * of_int k\<rfloor> \<and> \<lfloor>r * of_int k\<rfloor> < k"
proof -
  have "r * of_int k < of_int k"
    using assms by simp
  then have "\<lfloor>r * of_int k\<rfloor> < k"
    by (simp add: floor_less_iff)
  moreover have "0 \<le> r * of_int k" using assms by simp
  ultimately show ?thesis by simp
qed

lemma clearAround_empty: "clearAround createEmptyBoard p"
  unfolding clearAround_def
proof (intro ballI allI impI)
  fix d c assume c: "getCell createEmptyBoard (fst p + fst d) (snd p + snd d) = Some c"
  then have "inBounds (fst p + fst d) (snd p + snd d)"
    using wf_getCell_iff[OF wf_createEmptyBoard] by (metis option.distinct(1))
  then have "c = emptyCell" using c getCell_createEmptyBoard by simp
  then show "\<not> hasShip c" by (simp add: emptyCell_def)
qed

lemma first_ship_fits:
  fixes rnd :: "nat \<Rightarrow> real"
  assumes "\<forall>n. 0 \<le> rnd n \<and> rnd n < 1"
  shows "canPlaceShip createEmptyBoard
     \<lfloor>rnd (n + 1) * of_int (if rnd n < 1 / 2 then BOARD_SIZE - 4 + 1 else BOARD_SIZE)\<rfloor>
     \<lfloor>rnd (n + 2) * of_int (if rnd n < 1 / 2 then BOARD_SIZE else BOARD_SIZE - 4 + 1)\<rfloor>
     4 (rnd n < 1 / 2) = Inr True"
proof -
  define h where "h = (rnd n < 1 / 2)"
  define x where "x = \<lfloor>rnd (n + 1) * of_int (if h then BOARD_SIZE - 4 + 1 else BOARD_SIZE)\<rfloor>"
  define y where "y = \<lfloor>rnd (n + 2) * of_int (if h then BOARD_SIZE else BOARD_SIZE - 4 + 1)\<rfloor>"
  have r1: "0 \<le> rnd (n + 1)" "rnd (n + 1) < 1" and r2: "0 \<le> rnd (n + 2)" "rnd (n + 2) < 1"
    using assms by simp_all
  have x: "0 \<le> x \<and> x < (if h then 7 else 10)"
    unfolding x_def using floor_scaled[OF r1, of 7] floor_scaled[OF r1, of 10]
    by (simp add: BOARD_SIZE_def)
  have y: "0 \<le> y \<and> y < (if h then 10 else 7)"
    unfolding y_def using floor_scaled[OF r2, of 7] floor_scaled[OF r2, of 10]
    by (simp add: BOARD_SIZE_def)
  have "\<forall>p \<in> shipPos x y 4 h. inBounds (fst p) (snd p) \<and> clearAround createEmptyBoard p"
    using x y by (auto simp: shipPos_def clearAround_empty inBounds_def BOARD_SIZE_def split: if_splits)
  then have "canPlaceShip createEmptyBoard x y 4 h = Inr True"
    unfolding canPlaceShip_wf[OF wf_createEmptyBoard] by simp
  then show ?thesis
    unfolding x_def y_def h_def .
qed

lemma attemptFits_next:
  "attemptFits rnd (st\<lparr>p_calls := p_calls st + 3\<rparr>) sz k = attemptFits rnd st sz (Suc k)"
  by (simp add: attemptFits_def add.assoc)

lemma tryPlace_fits:
  "placedInv st \<Longrightarrow>
   \<exists>st'. tryPlace rnd st sz a = Inr st' \<and>
     shipSizes (p_ships st') = shipSizes (p_ships st) @
       (if \<exists>k. a + k < 500 \<and> attemptFits rnd st sz k then [sz] else [])"
proof (induction rnd st sz a rule: tryPlace.induct)
  case (1 rnd st sz attempts)
  show ?case
  proof (cases "attempts < 500")
    case False
    then show ?thesis by (subst tryPlace.simps) simp
  next
    case True
    define h where "h = (rnd (p_calls st) < 1 / 2)"
    define x where "x = \<lfloor>rnd (p_calls st + 1)
                    * of_int (if h then BOARD_SIZE - sz + 1 else BOARD_SIZE)\<rfloor>"
    define y where "y = \<lfloor>rnd (p_calls st + 2)
                    * of_int (if h then BOARD_SIZE else BOARD_SIZE - sz + 1)\<rfloor>"
    have wf: "wf_board (p_board st)" using 1(2) by (simp add: placedInv_def)
    obtain ok where ok: "canPlaceShip (p_board st) x y sz h = Inr ok"
      using canPlaceShip_wf[OF wf] by blast
    have unfold: "tryPlace rnd st sz attempts =
       (if \<not> ok then tryPlace rnd (st\<lparr>p_calls := p_calls st + 3\<rparr>) sz (attempts + 1)
        else Inr \<lparr>p_board = writeShip (p_board st) x y sz h (p_shipId st) 0,
                  p_ships = AList.update (p_shipId st)
                     \<lparr>id_ship = p_shipId st, size_ship = sz, hits = 0\<rparr> (p_ships st),
                  p_shipId = p_shipId st + 1,
                  p_calls = p_calls st + 3\<rparr>)"
      using True ok by (subst tryPlace.simps) (simp add: Let_def h_def x_def y_def)
    have now: "attemptFits rnd st sz 0 = ok"
      using ok by (simp add: attemptFits_def Let_def h_def x_def y_def)
    show ?thesis
    proof (cases ok)
      case False
      let ?st = "st\<lparr>p_calls := p_calls st + 3\<rparr>"
      have IH: "\<exists>st'. tryPlace rnd ?st sz (attempts + 1) = Inr st' \<and>
         shipSizes (p_ships st') = shipSizes (p_ships ?st) @
           (if \<exists>k. attempts + 1 + k < 500 \<and> attemptFits rnd ?st sz k then [sz] else [])"
        using 1(1)[OF True h_def x_def y_def ok False placedInv_calls[OF 1(2)]] .
      have shift: "(\<exists>k. attempts + 1 + k < 500 \<and> attemptFits rnd ?st sz k) =
         (\<exists>k. attempts + k < 500 \<and> attemptFits rnd st sz k)"
      proof
        assume "\<exists>k. attempts + 1 + k < 500 \<and> attemptFits rnd ?st sz k"
        then obtain k where k: "attempts + 1 + k < 500" "attemptFits rnd st sz (Suc k)"
          by (auto simp: attemptFits_next)
        show "\<exists>k. attempts + k < 500 \<and> attemptFits rnd st sz k"
          using k by (intro exI[of _ "Suc k"]) simp
      next
        assume "\<exists>k. attempts + k < 500 \<and> attemptFits rnd st sz k"
        then obtain k where k: "attempts + k < 500" "attemptFits rnd st sz k"
          by blast
        obtain j where j: "k = Suc j"
          using k(2) now False by (cases k) auto
        show "\<exists>k. attempts + 1 + k < 500 \<and> attemptFits rnd ?st sz k"
          using k unfolding j by (intro exI[of _ j]) (simp add: attemptFits_next)
      qed
      show ?thesis
        unfolding unfold using False IH shift by simp
    next
      case okT: True
      have fresh: "p_shipId st \<notin> fst ` set (p_ships st)"
      proof -
        have "fst ` set (p_ships st) = set [1..p_shipId st - 1]"
          using 1(2) unfolding placedInv_def by (metis set_map)
        then show ?thesis by simp
      qed
      have "\<exists>k. attempts + k < 500 \<and> attemptFits rnd st sz k"
        using True now okT by (intro exI[of _ 0]) simp
      then show ?thesis
        unfolding unfold using okT by (simp add: update_fresh[OF fresh])
    qed
  qed
qed

lemma tryPlace_everFits:
  assumes "placedInv st" and "tryPlace rnd st sz 0 = Inr st'"
  shows "shipSizes (p_ships st') =
     shipSizes (p_ships st) @ (if everFits rnd st sz then [sz] else [])"
proof -
  have "(\<exists>k. 0 + k < 500 \<and> attemptFits rnd st sz k) = everFits rnd st sz"
    by (auto simp: everFits_def)
  then show ?thesis
    using tryPlace_fits[OF assms(1), of rnd sz 0] assms(2) by simp
qed

lemma placeAll_fits:
  "placedInv st \<Longrightarrow> \<forall>sz \<in> set sizes. 0 \<le> sz \<Longrightarrow>
   \<exists>st'. placeAll rnd st sizes = Inr st' \<and>
     shipSizes (p_ships st') = shipSizes (p_ships st) @ fittingSizes rnd st sizes"
proof (induction sizes arbitrary: st)
  case Nil
  then show ?case by simp
next
  case (Cons sz sizes)
  obtain st1 where st1: "tryPlace rnd st sz 0 = Inr st1" "placedInv st1"
    using tryPlace_inv[OF Cons.prems(1), of sz rnd 0] Cons.prems(2) by fastforce
  have s1: "shipSizes (p_ships st1) =
     shipSizes (p_ships st) @ (if everFits rnd st sz then [sz] else [])"
    by (rule tryPlace_everFits[OF Cons.prems(1) st1(1)])
  have pos: "\<forall>sz \<in> set sizes. 0 \<le> sz" using Cons.prems(2) by simp
  obtain st' where st': "placeAll rnd st1 sizes = Inr st'"
    "shipSizes (p_ships st') = shipSizes (p_ships st1) @ fittingSizes rnd st1 sizes"
    using Cons.IH[OF st1(2) pos] by blast
  show ?case
    using st1(1) s1 st' by simp
qed

lemma placing_fits:
  "placing rnd = Inr st \<Longrightarrow> shipSizes (p_ships st) = fittingFleet rnd"
proof -
  assume st: "placing rnd = Inr st"
  have "\<forall>sz \<in> set SHIP_SIZES. 0 \<le> sz" by (simp add: SHIP_SIZES_def)
  from placeAll_fits[OF placedInv_init this, of rnd] st show ?thesis
    unfolding placing_def fittingFleet_def by auto
qed

lemma fittingFleet_first:
  fixes rnd :: "nat \<Rightarrow> real"
  assumes "\<forall>n. 0 \<le> rnd n \<and> rnd n < 1"
  shows "\<exists>rest. fittingFleet rnd = 4 # rest"
proof -
  define init where "init = \<lparr>p_board = createEmptyBoard, p_ships = [], p_shipId = 1, p_calls = 0\<rparr>"
  obtain st1 where st1: "tryPlace rnd init 4 0 = Inr st1"
    using tryPlace_inv[OF placedInv_init, of 4 rnd 0] by (auto simp: init_def)
  have "attemptFits rnd init 4 0"
    using first_ship_fits[OF assms, of 0] by (simp add: attemptFits_def Let_def init_def)
  then have "everFits rnd init 4"
    unfolding everFits_def by (intro bexI[of _ 0]) simp_all
  then show ?thesis
    unfolding fittingFleet_def SHIP_SIZES_def init_def[symmetric]
    by (simp add: st1)
qed

section \<open>Two placements computed\<close>

lemma canPlaceShip_origin_taken:
  assumes "wf_board b" and "getCell b 0 0 = Some c" and "hasShip c" and "1 \<le> sz"
  shows "canPlaceShip b 0 0 sz True = Inr False"
proof -
  have "(0, 0) \<in> shipPos 0 0 sz True"
    using assms(4) by (force simp: shipPos_def)
  moreover have "\<not> clearAround b (0, 0)"
    unfolding clearAround_def set_offsets using assms(2,3) by force
  ultimately show ?thesis
    unfolding canPlaceShip_wf[OF assms(1)] by blast
qed

lemma tryPlace_zero_fails:
  assumes "canPlaceShip (p_board st) 0 0 sz True = Inr False"
  shows "tryPlace (constDraws 0) st sz a = Inr (st\<lparr>p_calls := p_calls st + 3 * (500 - a)\<rparr>)"
  using assms
proof (induction "500 - a" arbitrary: a st)
  case 0
  then show ?case by (subst tryPlace.simps) simp
next
  case (Suc n)
  then have a: "a < 500" by simp
  have n: "n = 500 - (a + 1)" using Suc(2) by simp
  have "tryPlace (constDraws 0) (st\<lparr>p_calls := p_calls st + 3\<rparr>) sz (a + 1) =
     Inr (st\<lparr>p_calls := p_calls st + 3, p_calls := p_calls (st\<lparr>p_calls := p_calls st + 3\<rparr>) + 3 * (500 - (a + 1))\<rparr>)"
    using Suc(1)[OF n, of "st\<lparr>p_calls := p_calls st + 3\<rparr>"] Suc(3) by simp
  moreover have "3 + 3 * (500 - (a + 1)) = 3 * (500 - a)" using a by simp
  ultimately show ?case
    using a Suc(3) by (subst tryPlace.simps) (simp add: constDraws_def add.assoc)
qed

lemma placeAll_zero_fails:
  assumes "wf_board (p_board st)" and "getCell (p_board st) 0 0 = Some c" and "hasShip c"
    and "\<forall>sz \<in> set sizes. 1 \<le> sz"
  shows "placeAll (constDraws 0) st sizes = Inr (st\<lparr>p_calls := p_calls st + 1500 * length sizes\<rparr>)"
  using assms
proof (induction sizes arbitrary: st)
  case Nil
  then show ?case by simp
next
  case (Cons sz sizes)
  have "tryPlace (constDraws 0) st sz 0 = Inr (st\<lparr>p_calls := p_calls st + 1500\<rparr>)"
    using tryPlace_zero_fails[OF canPlaceShip_origin_taken[OF Cons.prems(1,2,3)], of sz 0] Cons.prems(4)
    by simp
  moreover have "placeAll (constDraws 0) (st\<lparr>p_calls := p_calls st + 1500\<rparr>) sizes =
     Inr (st\<lparr>p_calls := p_calls st + 1500, p_calls := p_calls (st\<lparr>p_calls := p_calls st + 1500\<rparr>) + 1500 * length sizes\<rparr>)"
    using Cons.IH[of "st\<lparr>p_calls := p_calls st + 1500\<rparr>"] Cons.prems by simp
  ultimately show ?case by (simp add: add.assoc)
qed

lemma first_ship_zero:
  "tryPlace (constDraws 0) \<lparr>p_board = createEmptyBoard, p_ships = [], p_shipId = 1, p_calls = 0\<rparr> 4 0 =
     Inr \<lparr>p_board = writeShip createEmptyBoard 0 0 4 True 1 0,
          p_ships = [(1, \<lparr>id_ship = 1, size_ship = 4, hits = 0\<rparr>)], p_shipId = 2, p_calls = 3\<rparr>"
proof -
  have "canPlaceShip createEmptyBoard 0 0 4 True = Inr True"
    by code_simp
  then show ?thesis
    by (subst tryPlace.simps) (simp add: constDraws_def BOARD_SIZE_def)
qed

lemma placing_zero:
  "placing (constDraws 0) =
     Inr \<lparr>p_board = writeShip createEmptyBoard 0 0 4 True 1 0,
          p_ships = [(1, \<lparr>id_ship = 1, size_ship = 4, hits = 0\<rparr>)], p_shipId = 2, p_calls = 13503\<rparr>"
proof -
  let ?b = "writeShip createEmptyBoard 0 0 4 True 1 0"
  have wf: "wf_board ?b" by (rule writeShip_wf[OF wf_createEmptyBoard])
  have inb: "\<forall>p \<in> shipPos 0 0 4 True. inBounds (fst p) (snd p)"
    by (auto simp: shipPos_def inBounds_def BOARD_SIZE_def)
  have "(0, 0) \<in> shipPos 0 0 4 True" by (force simp: shipPos_def)
  then have c: "getCell ?b 0 0 = Some \<lparr>hasShip = True, hit = False, shipId = Some 1\<rparr>"
    using getCell_writeShip0[OF wf_createEmptyBoard inb, of 1 0 0] by simp
  define st1 where "st1 = \<lparr>p_board = ?b,
          p_ships = [(1, \<lparr>id_ship = 1, size_ship = 4, hits = 0\<rparr>)], p_shipId = 2, p_calls = 3\<rparr>"
  have rest: "placeAll (constDraws 0) st1 [3, 3, 2, 2, 2, 1, 1, 1, 1] =
      Inr (st1\<lparr>p_calls := p_calls st1 + 1500 * length [3, 3, 2, 2, 2, 1, 1, 1, 1 :: int]\<rparr>)"
    by (rule placeAll_zero_fails[where c = "\<lparr>hasShip = True, hit = False, shipId = Some 1\<rparr>"])
      (simp_all add: st1_def wf c)
  have "placeAll (constDraws 0) \<lparr>p_board = createEmptyBoard, p_ships = [], p_shipId = 1, p_calls = 0\<rparr>
          (4 # [3, 3, 2, 2, 2, 1, 1, 1, 1]) = placeAll (constDraws 0) st1 [3, 3, 2, 2, 2, 1, 1, 1, 1]"
    by (subst placeAll.simps(2)) (simp only: first_ship_zero sum.case st1_def)
  then show ?thesis
    unfolding placing_def SHIP_SIZES_def rest by (simp add: st1_def)
qed

lemma placing_full:
  "map_sum id (\<lambda>st. (p_ships st, occupiedCells (p_board st))) (placing (listDraws fullDraws)) =
   Inr ([(1, \<lparr>id_ship = 1, size_ship = 4, hits = 0\<rparr>), (2, \<lparr>id_ship = 2, size_ship = 3, hits = 0\<rparr>),
        (3, \<lparr>id_ship = 3, size_ship = 3, hits = 0\<rparr>), (4, \<lparr>id_ship = 4, size_ship = 2, hits = 0\<rparr>),
        (5, \<lparr>id_ship = 5, size_ship = 2, hits = 0\<rparr>), (6, \<lparr>id_ship = 6, size_ship = 2, hits = 0\<rparr>),
        (7, \<lparr>id_ship = 7, size_ship = 1, hits = 0\<rparr>), (8, \<lparr>id_ship = 8, size_ship = 1, hits = 0\<rparr>),
        (9, \<lparr>id_ship = 9, size_ship = 1, hits = 0\<rparr>), (10, \<lparr>id_ship = 10, size_ship = 1, hits = 0\<rparr>)],
     [(0, 0), (1, 0), (2, 0), (3, 0), (5, 0), (6, 0), (0, 2), (1, 2),
       (2, 2), (5, 2), (0, 4), (1, 4), (2, 4), (5, 4), (0, 6), (1, 6),
       (5, 6), (0, 8), (1, 8), (5, 8)])"
  by code_simp

lemma placed_zero:
  "placedShips (constDraws 0) = [(1, \<lparr>id_ship = 1, size_ship = 4, hits = 0\<rparr>)]"
  "placedBoard (constDraws 0) = writeShip createEmptyBoard 0 0 4 True 1 0"
  by (simp_all add: placedShips_def placedBoard_def placeShipsRandomly_def placing_zero)

lemma placed_full:
  "placedShips (listDraws fullDraws) =
     [(1, \<lparr>id_ship = 1, size_ship = 4, hits = 0\<rparr>), (2, \<lparr>id_ship = 2, size_ship = 3, hits = 0\<rparr>),
        (3, \<lparr>id_ship = 3, size_ship = 3, hits = 0\<rparr>), (4, \<lparr>id_ship = 4, size_ship = 2, hits = 0\<rparr>),
        (5, \<lparr>id_ship = 5, size_ship = 2, hits = 0\<rparr>), (6, \<lparr>id_ship = 6, size_ship = 2, hits = 0\<rparr>),
        (7, \<lparr>id_ship = 7, size_ship = 1, hits = 0\<rparr>), (8, \<lparr>id_ship = 8, size_ship = 1, hits = 0\<rparr>),
        (9, \<lparr>id_ship = 9, size_ship = 1, hits = 0\<rparr>), (10, \<lparr>id_ship = 10, size_ship = 1, hits = 0\<rparr>)]"
  "occupiedCells (placedBoard (listDraws fullDraws)) =
     [(0, 0), (1, 0), (2, 0), (3, 0), (5, 0), (6, 0), (0, 2), (1, 2),
       (2, 2), (5, 2), (0, 4), (1, 4), (2, 4), (5, 4), (0, 6), (1, 6),
       (5, 6), (0, 8), (1, 8), (5, 8)]"
  using placing_full
  by (auto simp: placedShips_def placedBoard_def placeShipsRandomly_def split: sum.splits)

lemma shipAt_full:
  "shipAt (placedBoard (listDraws fullDraws)) (3, 0) = Some 1"
  "shipAt (placedBoard (listDraws fullDraws)) (5, 0) = Some 6"
  "shipCells (placedBoard (listDraws fullDraws)) 1 = [(0, 0), (1, 0), (2, 0), (3, 0)]"
  by code_simp+

section \<open>The placed fleet and its separation\<close>

text \<open>
  C1, as amended. For every random source the generator returns a board and a fleet. The
  sizes of the fleet are, in the order of \<open>SHIP_SIZES\<close>, those of the ships one of whose
  500 attempts draws a free position: a ship is left out exactly when all its 500
  attempts fail. The board has as many occupied cells as the sizes add up to. So when
  every ship finds a place the fleet has 10 ships, of the sizes \<open>SHIP_SIZES\<close>, on 20
  cells; otherwise it has fewer than 10 ships. With draws in the range of
  \<^verbatim>\<open>Math.random()\<close> the first ship, of size 4, is never left out.
\<close>

theorem placement_fleet:
  fixes rnd :: "nat \<Rightarrow> real"
  shows "\<exists>board ships. placeShipsRandomly rnd = Inr (board, ships) \<and>
     shipSizes ships = fittingFleet rnd \<and>
     subseq (shipSizes ships) SHIP_SIZES \<and>
     int (length (occupiedCells board)) = sum_list (shipSizes ships) \<and>
     (fittingFleet rnd = SHIP_SIZES \<longrightarrow>
        length ships = 10 \<and> length (occupiedCells board) = 20) \<and>
     (fittingFleet rnd \<noteq> SHIP_SIZES \<longrightarrow> length ships < 10) \<and>
     ((\<forall>n. 0 \<le> rnd n \<and> rnd n < 1) \<longrightarrow> (\<exists>rest. shipSizes ships = 4 # rest))"
proof -
  obtain st where st: "placing rnd = Inr st" "placedInv st"
    "subseq (shipSizes (p_ships st)) SHIP_SIZES"
    using placing_inv by blast
  have fit: "shipSizes (p_ships st) = fittingFleet rnd"
    by (rule placing_fits[OF st(1)])
  have occ: "int (length (occupiedCells (p_board st))) = sum_list (shipSizes (p_ships st))"
    using st(2) by (simp add: placedInv_def)
  have len: "length (shipSizes (p_ships st)) = length (p_ships st)"
    by (simp add: shipSizes_def)
  have all: "length (p_ships st) = 10 \<and> length (occupiedCells (p_board st)) = 20"
    if "fittingFleet rnd = SHIP_SIZES"
    using that fit occ len by (simp add: SHIP_SIZES_def)
  have less: "length (p_ships st) < 10" if ne: "fittingFleet rnd \<noteq> SHIP_SIZES"
  proof -
    have "length (shipSizes (p_ships st)) \<le> length SHIP_SIZES"
      using st(3) by (rule list_emb_length)
    moreover have "length (shipSizes (p_ships st)) \<noteq> length SHIP_SIZES"
      using st(3) ne fit subseq_same_length by metis
    ultimately show ?thesis
      using len by (simp add: SHIP_SIZES_def)
  qed
  have first: "\<exists>rest. shipSizes (p_ships st) = 4 # rest" if "\<forall>n. 0 \<le> rnd n \<and> rnd n < 1"
    unfolding fit by (rule fittingFleet_first[OF that])
  show ?thesis
    using placeShipsRandomly_placing[OF st(1)] fit st(3) occ all less first by blast
qed

theorem placement_fleet_witness:
  "fittingFleet (listDraws fullDraws) = SHIP_SIZES \<and>
   length (placedShips (listDraws fullDraws)) = 10 \<and>
   length (occupiedCells (placedBoard (listDraws fullDraws))) = 20 \<and>
   fittingFleet (constDraws 0) = [4] \<and> fittingFleet (constDraws 0) \<noteq> SHIP_SIZES \<and>
   length (placedShips (constDraws 0)) < 10 \<and>
   (\<forall>n. 0 \<le> constDraws 0 n \<and> constDraws 0 n < 1) \<and>
   (\<exists>rest. shipSizes (placedShips (constDraws 0)) = 4 # rest)"
proof -
  from placement_fleet[of "listDraws fullDraws"]
  obtain bf sf where f: "placeShipsRandomly (listDraws fullDraws) = Inr (bf, sf)"
    "shipSizes sf = fittingFleet (listDraws fullDraws)"
    "fittingFleet (listDraws fullDraws) = SHIP_SIZES \<longrightarrow>
       length sf = 10 \<and> length (occupiedCells bf) = 20"
    by blast
  have sf: "sf = placedShips (listDraws fullDraws)" and bf: "bf = placedBoard (listDraws fullDraws)"
    by (simp_all add: placedShips_def placedBoard_def f(1))
  have full: "fittingFleet (listDraws fullDraws) = SHIP_SIZES"
    using f(2) unfolding sf placed_full(1) by (simp add: SHIP_SIZES_def)
  from placement_fleet[of "constDraws 0"]
  obtain bz sz where z: "placeShipsRandomly (constDraws 0) = Inr (bz, sz)"
    "shipSizes sz = fittingFleet (constDraws 0)"
    "fittingFleet (constDraws 0) \<noteq> SHIP_SIZES \<longrightarrow> length sz < 10"
    "(\<forall>n. 0 \<le> constDraws 0 n \<and> constDraws 0 n < 1) \<longrightarrow> (\<exists>rest. shipSizes sz = 4 # rest)"
    by blast
  have sz: "sz = placedShips (constDraws 0)"
    by (simp add: placedShips_def z(1))
  have zero: "fittingFleet (constDraws 0) = [4]"
    using z(2) unfolding sz placed_zero(1) by simp
  have ne: "fittingFleet (constDraws 0) \<noteq> SHIP_SIZES"
    unfolding zero by (simp add: SHIP_SIZES_def)
  have r: "\<forall>n. 0 \<le> constDraws 0 n \<and> constDraws 0 n < 1"
    by (simp add: constDraws_def)
  show ?thesis
    using f(3) full z(3,4) zero ne r unfolding sf bf sz by blast
qed

theorem placement_fleet_counterexample:
  "length (placedShips (constDraws 0)) = 1 \<and>
   length (occupiedCells (placedBoard (constDraws 0))) = 4 \<and>
   length (placedShips (listDraws fullDraws)) = 10 \<and>
   length (occupiedCells (placedBoard (listDraws fullDraws))) = 20"
proof -
  have "occupiedCells (writeShip createEmptyBoard 0 0 4 True 1 0) = [(0, 0), (1, 0), (2, 0), (3, 0)]"
    by code_simp
  then show ?thesis
    by (simp add: placed_zero placed_full)
qed

text \<open>
  C5. For every random source, occupied cells of different ships on the returned board
  are at Chebyshev distance at least 2, and every ship of the fleet has as many cells on
  the board as its size says: no cell of a ship was taken by another ship.
\<close>

theorem placement_separated:
  "\<exists>board ships. placeShipsRandomly rnd = Inr (board, ships) \<and> separated board \<and>
     (\<forall>e \<in> set ships. int (length (shipCells board (fst e))) = size_ship (snd e))"
proof -
  obtain st where st: "placing rnd = Inr st" "placedInv st"
    using placing_inv by blast
  have "separated (p_board st)"
    and "\<forall>e \<in> set (p_ships st). int (length (shipCells (p_board st) (fst e))) = size_ship (snd e)"
    using st(2) by (simp_all add: placedInv_def)
  then show ?thesis
    using placeShipsRandomly_placing[OF st(1)] by blast
qed

theorem placement_separated_witness:
  "(3, 0) \<in> set (occupiedCells (placedBoard (listDraws fullDraws))) \<and>
   (5, 0) \<in> set (occupiedCells (placedBoard (listDraws fullDraws))) \<and>
   shipAt (placedBoard (listDraws fullDraws)) (3, 0) \<noteq> shipAt (placedBoard (listDraws fullDraws)) (5, 0) \<and>
   chebyshev (3, 0) (5, 0) \<ge> 2 \<and>
   (1, \<lparr>id_ship = 1, size_ship = 4, hits = 0\<rparr>) \<in> set (placedShips (listDraws fullDraws)) \<and>
   length (shipCells (placedBoard (listDraws fullDraws)) 1) = 4"
proof -
  let ?b = "placedBoard (listDraws fullDraws)"
  have p: "(3, 0) \<in> set (occupiedCells ?b)" and q: "(5, 0) \<in> set (occupiedCells ?b)"
    by (simp_all add: placed_full)
  have ne: "shipAt ?b (3, 0) \<noteq> shipAt ?b (5, 0)"
    by (simp add: shipAt_full)
  have e: "(1, \<lparr>id_ship = 1, size_ship = 4, hits = 0\<rparr>) \<in> set (placedShips (listDraws fullDraws))"
    by (simp add: placed_full)
  from placement_separated[of "listDraws fullDraws"]
  obtain board ships where r: "placeShipsRandomly (listDraws fullDraws) = Inr (board, ships)"
    and s: "separated board"
    and c: "\<forall>e \<in> set ships. int (length (shipCells board (fst e))) = size_ship (snd e)"
    by blast
  have sep: "separated ?b"
    and cnt: "\<forall>e \<in> set (placedShips (listDraws fullDraws)). int (length (shipCells ?b (fst e))) = size_ship (snd e)"
    using s c by (simp_all add: placedShips_def placedBoard_def r)
  have "chebyshev (3, 0) (5, 0) \<ge> 2"
    using sep p q ne unfolding separated_def by blast
  moreover have "length (shipCells ?b 1) = 4"
    using cnt e by fastforce
  ultimately show ?thesis using p q ne e by blast
qed

section \<open>The shot resolver keeps boards and fleets consistent\<close>

lemma registerHit_fired:
  "getCell board x y = Some c \<Longrightarrow> hit c \<Longrightarrow>
   registerHit board ships x y = Inr \<lparr>hr_board = board, hr_ships = ships, hr_result = Repeat\<rparr>"
  by (simp add: registerHit_def cloneBoard_id)

lemma registerHit_empty_fleet:
  "registerHit board [] x y = Inr r \<Longrightarrow> hr_ships r = []"
  by (auto simp: registerHit_def Let_def split: option.splits if_splits)

lemma registerHit_miss:
  "getCell board x y = Some c \<Longrightarrow> \<not> hit c \<Longrightarrow> \<not> hasShip c \<Longrightarrow>
   registerHit board ships x y =
     Inr \<lparr>hr_board = setCell board x y (c\<lparr>hit := True\<rparr>), hr_ships = ships, hr_result = Miss\<rparr>"
  by (simp add: registerHit_def cloneBoard_id)

lemma registerHit_ship:
  "getCell board x y = Some c \<Longrightarrow> \<not> hit c \<Longrightarrow> hasShip c \<Longrightarrow> shipId c = Some k \<Longrightarrow>
   k \<noteq> 0 \<Longrightarrow> map_of ships k = Some s \<Longrightarrow>
   registerHit board ships x y =
     Inr \<lparr>hr_board = setCell board x y (c\<lparr>hit := True\<rparr>),
          hr_ships = AList.update (id_ship s) (s\<lparr>hits := hits s + 1\<rparr>) ships,
          hr_result = (if hits s + 1 \<ge> size_ship s then Sunk else Hit)\<rparr>"
  by (simp add: registerHit_def cloneBoard_id)

lemma registerHit_board:
  assumes "getCell board x y = Some c" and "registerHit board ships x y = Inr r"
  shows "hr_board r = (if hit c then board else setCell board x y (c\<lparr>hit := True\<rparr>))"
  using assms
  by (auto simp: registerHit_def cloneBoard_id Let_def split: if_splits option.splits)

lemma consistent_wf: "consistent b ships \<Longrightarrow> wf_board b"
  by (simp add: consistent_def)

lemma consistent_ship:
  assumes "consistent board ships" and "inBounds x y" and "getCell board x y = Some c"
    and "hasShip c"
  obtains k s where "shipId c = Some k" "k \<noteq> 0" "map_of ships k = Some s" "(k, s) \<in> set ships"
    "id_ship s = k" "size_ship s = int (length (shipCells board k))"
    "hits s = int (length (firedCells board k))"
proof -
  have link: "(hasShip c \<longleftrightarrow> shipId c \<noteq> None) \<and>
        (\<forall>k. shipId c = Some k \<longrightarrow> k \<noteq> 0 \<and> k \<in> fst ` set ships)"
  proof -
    have cl: "cellsLinked board ships" using assms(1) by (simp add: consistent_def)
    show ?thesis
      using cl[unfolded cellsLinked_def, rule_format, of "(x, y)" c] assms(2,3)
      by (simp add: set_allCoords)
  qed
  then obtain k where k: "shipId c = Some k" "k \<noteq> 0" "k \<in> fst ` set ships"
    using assms(4) by auto
  then obtain s where s: "(k, s) \<in> set ships" by force
  have d: "distinct (map fst ships)"
    using assms(1) by (simp add: consistent_def shipsCounted_def)
  have m: "map_of ships k = Some s"
    using map_of_is_SomeI[OF d s] .
  have sc: "shipsCounted board ships" using assms(1) by (simp add: consistent_def)
  have "id_ship s = k \<and> size_ship s = int (length (shipCells board k)) \<and>
        hits s = int (length (firedCells board k))"
    using sc[unfolded shipsCounted_def, THEN conjunct2, rule_format, OF s] by simp
  then show ?thesis using that k s m by blast
qed

lemma consistent_unoccupied:
  assumes "consistent board ships" and "inBounds x y" and "getCell board x y = Some c"
    and "\<not> hasShip c"
  shows "shipId c = None"
proof -
  have cl: "cellsLinked board ships" using assms(1) by (simp add: consistent_def)
  show ?thesis
    using cl[unfolded cellsLinked_def, rule_format, of "(x, y)" c] assms(2,3,4)
    by (simp add: set_allCoords)
qed

lemma fired_subset: "set (firedCells b k) \<subseteq> set (shipCells b k)"
  by (auto simp: firedCells_def shipCells_def set_cellsWhere)

lemma fired_le: "length (firedCells b k) \<le> length (shipCells b k)"
  unfolding firedCells_def shipCells_def length_cellsWhere
  using fired_subset[of b k, unfolded firedCells_def shipCells_def]
  by (simp add: card_mono)

lemma unfired_room:
  assumes "inBounds x y" and "getCell b x y = Some c" and "shipId c = Some k" and "\<not> hit c"
  shows "length (firedCells b k) < length (shipCells b k)"
proof -
  have "(x, y) \<in> set (shipCells b k)" "(x, y) \<notin> set (firedCells b k)"
    using assms by (auto simp: firedCells_def shipCells_def set_cellsWhere)
  then have "set (firedCells b k) \<subset> set (shipCells b k)"
    using fired_subset[of b k] by blast
  then have "card (set (firedCells b k)) < card (set (shipCells b k))"
    by (simp add: psubset_card_mono)
  then show ?thesis
    by (simp add: firedCells_def shipCells_def length_cellsWhere)
qed

lemma shipCells_mark:
  assumes "wf_board b" and "inBounds x y" and "getCell b x y = Some c"
  shows "shipCells (setCell b x y (c\<lparr>hit := True\<rparr>)) k = shipCells b k"
  unfolding shipCells_def
  by (rule cellsWhere_cong) (use assms in \<open>auto simp: getCell_setCell\<close>)

lemma occupiedCells_mark:
  assumes "wf_board b" and "inBounds x y" and "getCell b x y = Some c"
  shows "occupiedCells (setCell b x y (c\<lparr>hit := True\<rparr>)) = occupiedCells b"
  unfolding occupiedCells_def
  by (rule cellsWhere_cong) (use assms in \<open>auto simp: getCell_setCell\<close>)

lemma firedCells_mark_other:
  assumes "wf_board b" and "inBounds x y" and "getCell b x y = Some c" and "shipId c \<noteq> Some k"
  shows "firedCells (setCell b x y (c\<lparr>hit := True\<rparr>)) k = firedCells b k"
  unfolding firedCells_def
  by (rule cellsWhere_cong) (use assms in \<open>auto simp: getCell_setCell\<close>)

lemma firedCells_mark_same:
  assumes "wf_board b" and "inBounds x y" and "getCell b x y = Some c" and "shipId c = Some k"
    and "\<not> hit c"
  shows "length (firedCells (setCell b x y (c\<lparr>hit := True\<rparr>)) k) = length (firedCells b k) + 1"
proof -
  have "set (firedCells (setCell b x y (c\<lparr>hit := True\<rparr>)) k) = insert (x, y) (set (firedCells b k))"
    unfolding firedCells_def set_cellsWhere using assms
    by (auto simp: getCell_setCell split: if_splits)
  moreover have "(x, y) \<notin> set (firedCells b k)"
    unfolding firedCells_def set_cellsWhere using assms by auto
  ultimately have "card (set (firedCells (setCell b x y (c\<lparr>hit := True\<rparr>)) k)) = card (set (firedCells b k)) + 1"
    by simp
  then show ?thesis
    by (simp add: firedCells_def length_cellsWhere)
qed

lemma cellsLinked_mark:
  assumes "wf_board b" and "inBounds x y" and "getCell b x y = Some c"
    and "cellsLinked b ships" and "fst ` set ships' = fst ` set ships"
  shows "cellsLinked (setCell b x y (c\<lparr>hit := True\<rparr>)) ships'"
  unfolding cellsLinked_def
proof (intro ballI allI impI)
  fix p c' assume p: "p \<in> set allCoords"
    and c': "getCell (setCell b x y (c\<lparr>hit := True\<rparr>)) (fst p) (snd p) = Some c'"
  show "(hasShip c' \<longleftrightarrow> shipId c' \<noteq> None) \<and>
        (\<forall>k. shipId c' = Some k \<longrightarrow> k \<noteq> 0 \<and> k \<in> fst ` set ships')"
  proof (cases "fst p = x \<and> snd p = y")
    case True
    then have "c' = c\<lparr>hit := True\<rparr>"
      using c' by (simp add: getCell_setCell[OF assms(1,2)])
    moreover have "getCell b (fst p) (snd p) = Some c" using True assms(3) by simp
    ultimately show ?thesis
      using assms(4)[unfolded cellsLinked_def, rule_format, OF p, of c] assms(5) by simp
  next
    case False
    then have "getCell b (fst p) (snd p) = Some c'"
      using c' by (auto simp: getCell_setCell[OF assms(1,2)] split: if_splits)
    then show ?thesis
      using assms(4)[unfolded cellsLinked_def, rule_format, OF p, of c'] assms(5) by simp
  qed
qed

lemma registerHit_consistent:
  assumes con: "consistent board ships" and inb: "inBounds x y"
  shows "\<exists>r. registerHit board ships x y = Inr r \<and> consistent (hr_board r) (hr_ships r)"
proof -
  have wf: "wf_board board" using con by (rule consistent_wf)
  obtain c where c: "getCell board x y = Some c"
    using wf_getCell[OF wf inb] by simp
  have cl: "cellsLinked board ships" and sc: "shipsCounted board ships"
    using con by (simp_all add: consistent_def)
  let ?b = "setCell board x y (c\<lparr>hit := True\<rparr>)"
  have wf': "wf_board ?b" by (rule wf_setCell[OF wf])
  show ?thesis
  proof (cases "hit c")
    case True
    then show ?thesis using registerHit_fired[OF c True] con by simp
  next
    case unfired: False
    show ?thesis
    proof (cases "hasShip c")
      case False
      have none: "shipId c = None"
        by (rule consistent_unoccupied[OF con inb c False])
      have "cellsLinked ?b ships"
        by (rule cellsLinked_mark[OF wf inb c cl refl])
      moreover have "shipsCounted ?b ships"
        using sc unfolding shipsCounted_def
        by (simp add: shipCells_mark[OF wf inb c] firedCells_mark_other[OF wf inb c] none)
      ultimately have "consistent ?b ships"
        using wf' by (simp add: consistent_def)
      then show ?thesis
        using registerHit_miss[OF c unfired False] by simp
    next
      case True
      obtain k s where ks: "shipId c = Some k" "k \<noteq> 0" "map_of ships k = Some s"
        "(k, s) \<in> set ships" "id_ship s = k"
        "size_ship s = int (length (shipCells board k))"
        "hits s = int (length (firedCells board k))"
        using consistent_ship[OF con inb c True] by blast
      define s' where "s' = s\<lparr>hits := hits s + 1\<rparr>"
      define ships' where "ships' = AList.update k s' ships"
      have d: "distinct (map fst ships)" using sc by (simp add: shipsCounted_def)
      have keys: "fst ` set ships' = fst ` set ships"
        using ks(4) unfolding ships'_def by (force simp: dom_update)
      have d': "distinct (map fst ships')"
        unfolding ships'_def by (rule distinct_update[OF d])
      have mem: "e = (k, s') \<or> (e \<in> set ships \<and> fst e \<noteq> k)" if "e \<in> set ships'" for e
      proof -
        have "map_of ships' (fst e) = Some (snd e)"
          using map_of_is_SomeI[OF d', of "fst e" "snd e"] that by simp
        then have "((map_of ships)(k \<mapsto> s')) (fst e) = Some (snd e)"
          by (simp add: ships'_def update_conv')
        then show ?thesis
          by (cases "fst e = k") (auto dest: map_of_SomeD simp: prod_eq_iff)
      qed
      have "cellsLinked ?b ships'"
        by (rule cellsLinked_mark[OF wf inb c cl keys])
      moreover have "shipsCounted ?b ships'"
        unfolding shipsCounted_def
      proof (intro conjI ballI)
        show "distinct (map fst ships')" by (rule d')
      next
        fix e assume "e \<in> set ships'"
        then consider "e = (k, s')" | "e \<in> set ships" "fst e \<noteq> k" using mem by blast
        then have "id_ship (snd e) = fst e \<and>
          size_ship (snd e) = int (length (shipCells ?b (fst e))) \<and>
          hits (snd e) = int (length (firedCells ?b (fst e)))"
        proof cases
          case 1
          then show ?thesis
            using ks(5,6,7) firedCells_mark_same[OF wf inb c ks(1) unfired]
            by (simp add: s'_def shipCells_mark[OF wf inb c])
        next
          case 2
          then have "shipId c \<noteq> Some (fst e)" using ks(1) by simp
          then show ?thesis
            using sc[unfolded shipsCounted_def, THEN conjunct2, rule_format, OF 2(1)]
            by (simp add: shipCells_mark[OF wf inb c] firedCells_mark_other[OF wf inb c])
        qed
        then show "id_ship (snd e) = fst e" 
          "size_ship (snd e) = int (length (shipCells ?b (fst e)))"
          "hits (snd e) = int (length (firedCells ?b (fst e)))" by simp_all
      qed
      ultimately have "consistent ?b ships'"
        using wf' by (simp add: consistent_def)
      then show ?thesis
        using registerHit_ship[OF c unfired True ks(1,2,3)] ks(5)
        by (simp add: ships'_def s'_def)
    qed
  qed
qed

lemma placedInv_consistent: "placedInv st \<Longrightarrow> consistent (p_board st) (p_ships st)"
proof -
  assume inv: "placedInv st"
  have keys: "map fst (p_ships st) = [1..p_shipId st - 1]"
    using inv by (simp add: placedInv_def)
  have dom: "fst ` set (p_ships st) = {1..p_shipId st - 1}"
    using keys by (metis set_map set_upto)
  have d: "distinct (map fst (p_ships st))"
    using keys by simp
  have cells: "\<And>p c. p \<in> set allCoords \<Longrightarrow> getCell (p_board st) (fst p) (snd p) = Some c \<Longrightarrow>
        \<not> hit c \<and> (hasShip c \<longleftrightarrow> shipId c \<noteq> None) \<and>
        (\<forall>k. shipId c = Some k \<longrightarrow> 1 \<le> k \<and> k < p_shipId st)"
    using inv unfolding placedInv_def by blast
  have nofire: "firedCells (p_board st) k = []" for k
    unfolding firedCells_def cellsWhere_def filter_empty_conv
    using cells by (auto split: option.splits)
  have "cellsLinked (p_board st) (p_ships st)"
    unfolding cellsLinked_def dom using cells by force
  moreover have "shipsCounted (p_board st) (p_ships st)"
    unfolding shipsCounted_def using inv d by (simp add: placedInv_def nofire)
  ultimately show ?thesis
    using inv by (simp add: consistent_def placedInv_def)
qed

lemma placed_consistent:
  "\<exists>board ships. placeShipsRandomly rnd = Inr (board, ships) \<and> consistent board ships"
  using placing_inv[of rnd] placedInv_consistent placeShipsRandomly_placing by blast

lemma placedBoard_consistent: "consistent (placedBoard rnd) (placedShips rnd)"
  using placed_consistent[of rnd] by (auto simp: placedBoard_def placedShips_def)

lemma demo_cells:
  "getCell (placedBoard (constDraws 0)) 0 0 = Some \<lparr>hasShip = True, hit = False, shipId = Some 1\<rparr>"
  "getCell (placedBoard (constDraws 0)) 5 5 = Some \<lparr>hasShip = False, hit = False, shipId = None\<rparr>"
  unfolding placed_zero by code_simp+

lemma demo_hit:
  "registerHit (placedBoard (constDraws 0)) (placedShips (constDraws 0)) 0 0 =
     Inr \<lparr>hr_board = setCell (placedBoard (constDraws 0)) 0 0
                        \<lparr>hasShip = True, hit = True, shipId = Some 1\<rparr>,
          hr_ships = [(1, \<lparr>id_ship = 1, size_ship = 4, hits = 1\<rparr>)],
          hr_result = Hit\<rparr>"
  using registerHit_ship[OF demo_cells(1), of 1 "placedShips (constDraws 0)"
      "\<lparr>id_ship = 1, size_ship = 4, hits = 0\<rparr>"]
  by (simp add: placed_zero(1))

lemma demo_miss:
  "registerHit (placedBoard (constDraws 0)) (placedShips (constDraws 0)) 5 5 =
     Inr \<lparr>hr_board = setCell (placedBoard (constDraws 0)) 5 5
                        \<lparr>hasShip = False, hit = True, shipId = None\<rparr>,
          hr_ships = placedShips (constDraws 0), hr_result = Miss\<rparr>"
  using registerHit_miss[OF demo_cells(2)] by simp

lemma empty_miss:
  "registerHit createEmptyBoard [] 0 0 =
     Inr \<lparr>hr_board = setCell createEmptyBoard 0 0 (emptyCell\<lparr>hit := True\<rparr>),
          hr_ships = [], hr_result = Miss\<rparr>"
  using registerHit_miss[OF getCell_createEmptyBoard[OF inBounds_demo(1)], of "[]"]
  by (simp add: emptyCell_def)

section \<open>Resolved shots and repeated shots\<close>

text \<open>
  C2. On a board and fleet of the data model (\<open>consistent\<close>: cells point to records of
  the fleet, sizes and hit counts count cells; placement gives such a pair and every shot
  keeps it), a shot at an in-bounds cell not yet fired at returns a board with that cell
  fired. On an unoccupied cell the outcome is \<open>Miss\<close> and the fleet is the same; on an
  occupied cell the ship the cell refers to has its hit count raised by one, and the
  outcome is \<open>Sunk\<close> when the new count equals the size, \<open>Hit\<close> otherwise.
\<close>

theorem shot_resolved:
  assumes "consistent board ships" and "inBounds x y"
    and "getCell board x y = Some c" and "\<not> hit c"
  shows "\<exists>r c'. registerHit board ships x y = Inr r \<and>
     getCell (hr_board r) x y = Some c' \<and> hit c' \<and>
     (\<not> hasShip c \<longrightarrow> hr_result r = Miss \<and> hr_ships r = ships) \<and>
     (hasShip c \<longrightarrow>
        (\<exists>k s. shipId c = Some k \<and> map_of ships k = Some s \<and>
           map_of (hr_ships r) k = Some (s\<lparr>hits := hits s + 1\<rparr>) \<and>
           hr_result r = (if hits s + 1 = size_ship s then Sunk else Hit)))"
proof -
  have wf: "wf_board board" using assms(1) by (rule consistent_wf)
  have cell: "getCell (setCell board x y (c\<lparr>hit := True\<rparr>)) x y = Some (c\<lparr>hit := True\<rparr>)"
    by (simp add: getCell_setCell[OF wf assms(2)])
  show ?thesis
  proof (cases "hasShip c")
    case False
    then show ?thesis
      using registerHit_miss[OF assms(3,4) False, of ships] cell by simp
  next
    case True
    obtain k s where ks: "shipId c = Some k" "k \<noteq> 0" "map_of ships k = Some s"
        "(k, s) \<in> set ships" "id_ship s = k"
        "size_ship s = int (length (shipCells board k))"
        "hits s = int (length (firedCells board k))"
      using consistent_ship[OF assms(1,2,3) True] by blast
    have "hits s < size_ship s"
      using unfired_room[OF assms(2,3) ks(1) assms(4)] ks(6,7) by simp
    then have sunk: "(hits s + 1 \<ge> size_ship s) = (hits s + 1 = size_ship s)"
      by auto
    have "map_of (AList.update (id_ship s) (s\<lparr>hits := hits s + 1\<rparr>) ships) k =
        Some (s\<lparr>hits := hits s + 1\<rparr>)"
      by (simp add: ks(5) update_conv')
    then show ?thesis
      using registerHit_ship[OF assms(3,4) True ks(1,2,3)] cell True ks(1,3) sunk by simp
  qed
qed

theorem shot_resolved_witness:
  "consistent (placedBoard (constDraws 0)) (placedShips (constDraws 0)) \<and> inBounds 0 0 \<and>
   getCell (placedBoard (constDraws 0)) 0 0 = Some \<lparr>hasShip = True, hit = False, shipId = Some 1\<rparr> \<and>
   (\<exists>r c'. registerHit (placedBoard (constDraws 0)) (placedShips (constDraws 0)) 0 0 = Inr r \<and>
      getCell (hr_board r) 0 0 = Some c' \<and> hit c' \<and>
      map_of (hr_ships r) 1 = Some \<lparr>id_ship = 1, size_ship = 4, hits = 1\<rparr> \<and>
      hr_result r = Hit)"
proof -
  have inb: "inBounds 0 0" by (simp add: inBounds_def BOARD_SIZE_def)
  have m: "map_of (placedShips (constDraws 0)) 1 = Some \<lparr>id_ship = 1, size_ship = 4, hits = 0\<rparr>"
    by (simp add: placed_zero)
  from shot_resolved[OF placedBoard_consistent inb demo_cells(1)] m
  show ?thesis
    using placedBoard_consistent inb demo_cells(1) by auto
qed

text \<open>
  C3. A shot at a cell that was fired at before (so the coordinate has a cell: it is in
  bounds) returns \<open>Repeat\<close>, with the board and the fleet it was given.
\<close>

theorem repeat_shot:
  "getCell board x y = Some c \<Longrightarrow> hit c \<Longrightarrow>
   registerHit board ships x y = Inr \<lparr>hr_board = board, hr_ships = ships, hr_result = Repeat\<rparr>"
  by (rule registerHit_fired)

theorem repeat_shot_witness:
  "getCell (setCell createEmptyBoard 5 5 (emptyCell\<lparr>hit := True\<rparr>)) 5 5 = Some (emptyCell\<lparr>hit := True\<rparr>) \<and>
   hit (emptyCell\<lparr>hit := True\<rparr>) \<and>
   registerHit (setCell createEmptyBoard 5 5 (emptyCell\<lparr>hit := True\<rparr>)) [] 5 5 =
     Inr \<lparr>hr_board = setCell createEmptyBoard 5 5 (emptyCell\<lparr>hit := True\<rparr>), hr_ships = [],
          hr_result = Repeat\<rparr>"
proof -
  have c: "getCell (setCell createEmptyBoard 5 5 (emptyCell\<lparr>hit := True\<rparr>)) 5 5 = Some (emptyCell\<lparr>hit := True\<rparr>)"
    by (simp add: getCell_setCell[OF wf_createEmptyBoard inBounds_demo(2)])
  have h: "hit (emptyCell\<lparr>hit := True\<rparr>)" by simp
  from repeat_shot[OF c h, of "[]"] c h show ?thesis by simp
qed

section \<open>The heap version and what a shot leaves alone\<close>

lemma cloneRowH_eq:
  "list_all (\<lambda>a. a < length h) as \<Longrightarrow>
   cloneRowH h as = (h @ map (\<lambda>a. h ! a) as, [length h..<length h + length as])"
proof (induction as arbitrary: h)
  case Nil
  show ?case by simp
next
  case (Cons a as)
  have v: "list_all (\<lambda>b. b < length (h @ [h ! a])) as"
    using Cons.prems by (auto simp: list_all_iff)
  have "map (\<lambda>b. (h @ [h ! a]) ! b) as = map (\<lambda>b. h ! b) as"
    using Cons.prems by (auto simp: list_all_iff nth_append)
  moreover have "[length h..<length h + length (a # as)] =
      length h # [length (h @ [h ! a])..<length (h @ [h ! a]) + length as]"
  proof -
    have "[length h..<length h + Suc (length as)] = length h # [Suc (length h)..<length h + Suc (length as)]"
      by (rule upt_conv_Cons) simp
    then show ?thesis by (simp only: length_append list.size length_Cons add_Suc_right add_Suc add_0_right)
  qed
  ultimately show ?case
    unfolding cloneRowH.simps Cons.IH[OF v] by (simp del: upt_Suc)
qed

lemma freshRows_shape: "map length rb = map length B \<Longrightarrow> freshRows n rb = freshRows n B"
proof (induction rb arbitrary: n B)
  case Nil
  then show ?case by simp
next
  case (Cons row rows)
  then obtain r B' where "B = r # B'" by (cases B) auto
  with Cons show ?case by simp
qed

lemma readBoard_simps:
  "readBoard h [] = []"
  "readBoard h (row # rows) = map (\<lambda>a. h ! a) row # readBoard h rows"
  by (simp_all add: readBoard_def)

lemma cloneBoardH_eq:
  "validRefs h rb \<Longrightarrow>
   cloneBoardH h rb = (h @ concat (readBoard h rb), freshRows (length h) rb)"
proof (induction rb arbitrary: h)
  case Nil
  show ?case by (simp add: readBoard_simps)
next
  case (Cons row rows)
  have row: "list_all (\<lambda>a. a < length h) row" and rows: "validRefs h rows"
    using Cons.prems by (simp_all add: validRefs_def)
  let ?h1 = "h @ map (\<lambda>a. h ! a) row"
  have v: "validRefs ?h1 rows"
    using rows by (force simp: validRefs_def list_all_iff)
  have "readBoard ?h1 rows = readBoard h rows"
    using rows by (auto simp: readBoard_def validRefs_def list_all_iff nth_append)
  then show ?case
    using Cons.IH[OF v] cloneRowH_eq[OF row] by (simp add: readBoard_simps)
qed

lemma map_nth_middle: "map (\<lambda>a. (xs @ ys @ zs) ! a) [length xs..<length xs + length ys] = ys"
  by (rule nth_equalityI) (simp_all add: nth_append)

lemma readBoard_fresh:
  "readBoard (pre @ concat B) (freshRows (length pre) B) = B"
proof (induction B arbitrary: pre)
  case Nil
  show ?case by (simp add: readBoard_simps)
next
  case (Cons row B)
  have "readBoard ((pre @ row) @ concat B) (freshRows (length (pre @ row)) B) = B"
    by (rule Cons.IH)
  then show ?case
    using map_nth_middle[of pre row "concat B"] by (simp add: readBoard_simps)
qed

lemma length_freshRows: "length (freshRows n B) = length B"
  by (induction B arbitrary: n) simp_all

lemma length_freshRows_nth: "j < length B \<Longrightarrow> length (freshRows n B ! j) = length (B ! j)"
proof (induction B arbitrary: n j)
  case Nil
  then show ?case by simp
next
  case (Cons row B)
  then show ?case by (cases j) simp_all
qed

lemma getRef_fresh:
  "getRef (freshRows n B) x y = None \<longleftrightarrow> getCell B x y = None"
  by (simp add: getRef_def getCell_def length_freshRows length_freshRows_nth)

lemma getCell_readBoard:
  "getCell (readBoard H rb) x y = map_option (\<lambda>a. H ! a) (getRef rb x y)"
  by (simp add: getCell_def getRef_def readBoard_def)

lemma update_fresh_nat:
  assumes "j < length B" and "i < length (B ! j)"
  shows "(pre @ concat B)[freshRows (length pre) B ! j ! i := v] =
           pre @ concat (B[j := (B ! j)[i := v]]) \<and>
         freshRows (length pre) B ! j ! i < length (pre @ concat B)"
  using assms
proof (induction B arbitrary: pre j)
  case Nil
  then show ?case by simp
next
  case (Cons row B)
  show ?case
  proof (cases j)
    case 0
    then have "i < length row" using Cons.prems by simp
    then show ?thesis
      using 0 by (simp add: list_update_append)
  next
    case (Suc j')
    then have j': "j' < length B" "i < length (B ! j')" using Cons.prems by simp_all
    have "((pre @ row) @ concat B)[freshRows (length (pre @ row)) B ! j' ! i := v] =
           (pre @ row) @ concat (B[j' := (B ! j')[i := v]]) \<and>
         freshRows (length (pre @ row)) B ! j' ! i < length ((pre @ row) @ concat B)"
      by (rule Cons.IH[OF j'])
    then show ?thesis
      using Suc by simp
  qed
qed

lemma update_fresh_cell:
  assumes "getRef (freshRows (length pre) B) x y = Some a"
  shows "(pre @ concat B)[a := v] = pre @ concat (setCell B x y v) \<and> a < length (pre @ concat B)"
proof -
  have y: "nat y < length B" and a: "a = freshRows (length pre) B ! nat y ! nat x"
    and x': "nat x < length (freshRows (length pre) B ! nat y)"
    using assms by (auto simp: getRef_def length_freshRows split: if_splits)
  have x: "nat x < length (B ! nat y)"
    using x' length_freshRows_nth[OF y] by simp
  show ?thesis
    unfolding a setCell_def by (rule update_fresh_nat[OF y x])
qed

lemma shape_readBoard: "map length (readBoard h rb) = map length rb"
  by (simp add: readBoard_def)

lemma shape_setCell: "map length (setCell B x y c) = map length B"
proof (rule nth_equalityI)
  show "length (map length (setCell B x y c)) = length (map length B)"
    by (simp add: setCell_def)
next
  fix i assume "i < length (map length (setCell B x y c))"
  then have i: "i < length B" by (simp add: setCell_def)
  show "map length (setCell B x y c) ! i = map length B ! i"
    using i by (cases "i = nat y") (simp_all add: setCell_def)
qed

lemma readBoard_clone_mark:
  "readBoard (h @ concat (setCell B x y c)) (freshRows (length h) B) = setCell B x y c"
  using readBoard_fresh[of h "setCell B x y c"]
    freshRows_shape[OF shape_setCell[symmetric], of "length h" B x y c]
  by simp

lemma registerHitH_unfold:
  assumes "validRefs h rb"
  shows "registerHitH h rb ships x y =
     (case getCell (readBoard h rb) x y of
        None \<Rightarrow> Inl TypeError
      | Some c \<Rightarrow>
          if hit c
          then Inr \<lparr>hh_heap = h @ concat (readBoard h rb),
                    hh_board = freshRows (length h) (readBoard h rb),
                    hh_ships = ships, hh_result = Repeat\<rparr>
          else
            (case (if hasShip c then shipId c else None) of
               None \<Rightarrow>
                 Inr \<lparr>hh_heap = h @ concat (setCell (readBoard h rb) x y (c\<lparr>hit := True\<rparr>)),
                      hh_board = freshRows (length h) (readBoard h rb),
                      hh_ships = ships, hh_result = Miss\<rparr>
             | Some k \<Rightarrow>
                 if k = 0
                 then Inr \<lparr>hh_heap = h @ concat (setCell (readBoard h rb) x y (c\<lparr>hit := True\<rparr>)),
                           hh_board = freshRows (length h) (readBoard h rb),
                           hh_ships = ships, hh_result = Miss\<rparr>
                 else
                   (case map_of ships k of
                      None \<Rightarrow> Inl UntypedShip
                    | Some s \<Rightarrow>
                        Inr \<lparr>hh_heap = h @ concat (setCell (readBoard h rb) x y (c\<lparr>hit := True\<rparr>)),
                             hh_board = freshRows (length h) (readBoard h rb),
                             hh_ships = AList.update (id_ship s) (s\<lparr>hits := hits s + 1\<rparr>) ships,
                             hh_result = (if hits s + 1 \<ge> size_ship s then Sunk else Hit)\<rparr>)))"
proof -
  define B where "B = readBoard h rb"
  define F where "F = freshRows (length h) B"
  define H1 where "H1 = h @ concat B"
  have F: "freshRows (length h) rb = F"
    unfolding F_def B_def by (rule freshRows_shape) (simp add: shape_readBoard)
  have clone: "cloneBoardH h rb = (H1, F)"
    using cloneBoardH_eq[OF assms] F by (simp add: H1_def B_def)
  have read: "readBoard H1 F = B"
    unfolding H1_def F_def by (rule readBoard_fresh)
  show ?thesis
  proof (cases "getCell B x y")
    case None
    then have "getRef F x y = None"
      unfolding F_def by (simp add: getRef_fresh)
    then show ?thesis
      using None by (simp add: registerHitH_def clone B_def[symmetric])
  next
    case (Some c)
    then obtain a where a: "getRef F x y = Some a"
      using getRef_fresh[of "length h" B x y] unfolding F_def by auto
    have c: "H1 ! a = c"
      using getCell_readBoard[of H1 F x y] read Some a by simp
    have upd: "H1[a := v] = h @ concat (setCell B x y v)" and lt: "a < length H1" for v
      using update_fresh_cell[OF a[unfolded F_def], of v] by (simp_all add: H1_def)
    have sel: "(h @ concat (setCell B x y v)) ! a = v" for v
      using lt upd[of v, symmetric] by simp
    show ?thesis
      unfolding registerHitH_def clone B_def[symmetric] F_def[symmetric] H1_def[symmetric]
      by (simp add: a c Some Let_def sel upd split: option.splits)
  qed
qed

lemma registerHitH_refines:
  assumes "validRefs h rb"
  shows "map_sum id abstractH (registerHitH h rb ships x y) =
     registerHit (readBoard h rb) ships x y"
  unfolding registerHitH_unfold[OF assms] registerHit_def cloneBoard_id
  by (auto simp: abstractH_def readBoard_fresh readBoard_clone_mark Let_def split: option.splits)

lemma registerHitH_frame:
  assumes "validRefs h rb" and "registerHitH h rb ships x y = Inr q"
  shows "take (length h) (hh_heap q) = h"
  using assms(2) unfolding registerHitH_unfold[OF assms(1)]
  by (auto split: option.splits if_splits)

lemma readBoard_take:
  assumes "validRefs h rb" and "take (length h) h' = h"
  shows "readBoard h' rb = readBoard h rb"
proof -
  have "h' ! a = h ! a" if "a < length h" for a
    using assms(2) that by (metis nth_take)
  then show ?thesis
    using assms(1) by (auto simp: readBoard_def validRefs_def list_all_iff)
qed

lemma map_fst_update: "k \<in> fst ` set al \<Longrightarrow> map fst (AList.update k v al) = map fst al"
  by (induction al) auto

lemma shot_frame_pure:
  assumes con: "consistent B ships" and inb: "inBounds x y"
    and c: "getCell B x y = Some c" and unfired: "\<not> hit c"
  shows "\<exists>r. registerHit B ships x y = Inr r \<and>
     hr_board r = setCell B x y (c\<lparr>hit := True\<rparr>) \<and>
     map fst (hr_ships r) = map fst ships \<and>
     (\<forall>k. shipId c \<noteq> Some k \<longrightarrow> map_of (hr_ships r) k = map_of ships k) \<and>
     (hr_ships r \<noteq> ships \<longleftrightarrow> hasShip c)"
proof (cases "hasShip c")
  case False
  then show ?thesis
    using registerHit_miss[OF c unfired False, of ships] by simp
next
  case True
  obtain k s where ks: "shipId c = Some k" "k \<noteq> 0" "map_of ships k = Some s"
      "(k, s) \<in> set ships" "id_ship s = k"
    using consistent_ship[OF con inb c True] by blast
  let ?ships = "AList.update k (s\<lparr>hits := hits s + 1\<rparr>) ships"
  have reg: "registerHit B ships x y =
     Inr \<lparr>hr_board = setCell B x y (c\<lparr>hit := True\<rparr>), hr_ships = ?ships,
          hr_result = (if hits s + 1 \<ge> size_ship s then Sunk else Hit)\<rparr>"
    using registerHit_ship[OF c unfired True ks(1,2,3)] ks(5) by simp
  have keys: "map fst ?ships = map fst ships"
    by (rule map_fst_update) (use ks(4) in force)
  have other: "map_of ?ships k' = map_of ships k'" if "k' \<noteq> k" for k'
    using that by (simp add: update_conv')
  have "hits (s\<lparr>hits := hits s + 1\<rparr>) \<noteq> hits s" by simp
  then have "s\<lparr>hits := hits s + 1\<rparr> \<noteq> s" by metis
  moreover have "map_of ?ships k = Some (s\<lparr>hits := hits s + 1\<rparr>)"
    by (simp add: update_conv')
  ultimately have "map_of ?ships k \<noteq> map_of ships k"
    using ks(3) by simp
  then have changed: "?ships \<noteq> ships" by metis
  show ?thesis
    unfolding reg using keys other changed True ks(1) by simp
qed

lemma validRefs_fresh_aux:
  "list_all (\<lambda>row. list_all (\<lambda>a. a < n + length (concat B)) row) (freshRows n B)"
proof (induction B arbitrary: n)
  case Nil
  show ?case by simp
next
  case (Cons row B)
  have "list_all (\<lambda>r. list_all (\<lambda>a. a < (n + length row) + length (concat B)) r)
     (freshRows (n + length row) B)"
    by (rule Cons.IH)
  then show ?case
    by (simp add: list_all_iff add.assoc)
qed

lemma validRefs_fresh: "validRefs (concat B) (freshRows 0 B)"
  using validRefs_fresh_aux[of 0 B] by (simp add: validRefs_def)

lemma demo_heap:
  "validRefs demoHeap demoRefs"
  "readBoard demoHeap demoRefs = placedBoard (constDraws 0)"
  unfolding demoHeap_def demoRefs_def
  using validRefs_fresh readBoard_fresh[of "[]"] by simp_all

text \<open>
  C8. A shot at an in-bounds cell not yet fired at, on a board and fleet of the data
  model: the heap version returns what \<^verbatim>\<open>registerHit\<close> returns; every object that
  was on the heap before is as it was, so the board passed in reads the same after the
  call; the returned board has the cell \<open>(x, y)\<close> with \<open>hit\<close> set and every other
  cell as in the board passed in; the returned fleet has the same keys, the same record
  under every key but the one the cell refers to, and differs from the fleet passed in
  exactly when the cell is occupied.
\<close>

theorem shot_frame:
  assumes "validRefs h rb" and "consistent (readBoard h rb) ships" and "inBounds x y"
    and "getCell (readBoard h rb) x y = Some c" and "\<not> hit c"
  shows "\<exists>q. registerHitH h rb ships x y = Inr q \<and>
     registerHit (readBoard h rb) ships x y = Inr (abstractH q) \<and>
     take (length h) (hh_heap q) = h \<and>
     readBoard (hh_heap q) rb = readBoard h rb \<and>
     getCell (readBoard (hh_heap q) (hh_board q)) x y = Some (c\<lparr>hit := True\<rparr>) \<and>
     (\<forall>x' y'. (x', y') \<noteq> (x, y) \<longrightarrow>
        getCell (readBoard (hh_heap q) (hh_board q)) x' y' = getCell (readBoard h rb) x' y') \<and>
     map fst (hh_ships q) = map fst ships \<and>
     (\<forall>k. shipId c \<noteq> Some k \<longrightarrow> map_of (hh_ships q) k = map_of ships k) \<and>
     (hh_ships q \<noteq> ships \<longleftrightarrow> hasShip c)"
proof -
  define B where "B = readBoard h rb"
  have wf: "wf_board B" using assms(2) unfolding B_def by (rule consistent_wf)
  obtain r where r: "registerHit B ships x y = Inr r"
     "hr_board r = setCell B x y (c\<lparr>hit := True\<rparr>)"
     "map fst (hr_ships r) = map fst ships"
     "\<forall>k. shipId c \<noteq> Some k \<longrightarrow> map_of (hr_ships r) k = map_of ships k"
     "hr_ships r \<noteq> ships \<longleftrightarrow> hasShip c"
    using shot_frame_pure[OF assms(2,3,4,5)] unfolding B_def by blast
  have "map_sum id abstractH (registerHitH h rb ships x y) = Inr r"
    using registerHitH_refines[OF assms(1), of ships x y] r(1) by (simp add: B_def)
  then obtain q where q: "registerHitH h rb ships x y = Inr q" "abstractH q = r"
    by (cases "registerHitH h rb ships x y") auto
  have frame: "take (length h) (hh_heap q) = h"
    by (rule registerHitH_frame[OF assms(1) q(1)])
  have same: "readBoard (hh_heap q) rb = readBoard h rb"
    by (rule readBoard_take[OF assms(1) frame])
  have board: "readBoard (hh_heap q) (hh_board q) = setCell B x y (c\<lparr>hit := True\<rparr>)"
    and ships: "hh_ships q = hr_ships r"
    using q(2) r(2) by (auto simp: abstractH_def)
  have cell: "getCell (readBoard (hh_heap q) (hh_board q)) x y = Some (c\<lparr>hit := True\<rparr>)"
    unfolding board by (simp add: getCell_setCell[OF wf assms(3)])
  have others: "\<forall>x' y'. (x', y') \<noteq> (x, y) \<longrightarrow>
        getCell (readBoard (hh_heap q) (hh_board q)) x' y' = getCell B x' y'"
    unfolding board by (simp add: getCell_setCell[OF wf assms(3)])
  have pure: "registerHit (readBoard h rb) ships x y = Inr (abstractH q)"
    using r(1) q(2) by (simp add: B_def)
  have fleet: "map fst (hh_ships q) = map fst ships"
    "\<forall>k. shipId c \<noteq> Some k \<longrightarrow> map_of (hh_ships q) k = map_of ships k"
    "hh_ships q \<noteq> ships \<longleftrightarrow> hasShip c"
    using r(3,4,5) unfolding ships by simp_all
  show ?thesis
    using q(1) pure frame same cell others[unfolded B_def] fleet
    by (intro exI[of _ q]) simp
qed

theorem shot_frame_witness:
  "validRefs demoHeap demoRefs \<and>
   consistent (readBoard demoHeap demoRefs) (placedShips (constDraws 0)) \<and> inBounds 0 0 \<and>
   getCell (readBoard demoHeap demoRefs) 0 0 = Some \<lparr>hasShip = True, hit = False, shipId = Some 1\<rparr> \<and>
   (\<exists>q. registerHitH demoHeap demoRefs (placedShips (constDraws 0)) 0 0 = Inr q \<and>
      readBoard (hh_heap q) demoRefs = readBoard demoHeap demoRefs \<and>
      getCell (readBoard (hh_heap q) (hh_board q)) 0 0 =
        Some \<lparr>hasShip = True, hit = True, shipId = Some 1\<rparr> \<and>
      getCell (readBoard (hh_heap q) (hh_board q)) 5 5 = getCell (readBoard demoHeap demoRefs) 5 5 \<and>
      map_of (hh_ships q) 2 = map_of (placedShips (constDraws 0)) 2 \<and>
      hh_ships q \<noteq> placedShips (constDraws 0))"
proof -
  have con: "consistent (readBoard demoHeap demoRefs) (placedShips (constDraws 0))"
    unfolding demo_heap(2) by (rule placedBoard_consistent)
  have c: "getCell (readBoard demoHeap demoRefs) 0 0 = Some \<lparr>hasShip = True, hit = False, shipId = Some 1\<rparr>"
    unfolding demo_heap(2) by (rule demo_cells(1))
  have ne: "((5::int), (5::int)) \<noteq> (0, 0)" by simp
  from shot_frame[OF demo_heap(1) con inBounds_demo(1) c]
  obtain q where q: "registerHitH demoHeap demoRefs (placedShips (constDraws 0)) 0 0 = Inr q"
     "readBoard (hh_heap q) demoRefs = readBoard demoHeap demoRefs"
     "getCell (readBoard (hh_heap q) (hh_board q)) 0 0 =
        Some (\<lparr>hasShip = True, hit = False, shipId = Some 1\<rparr>\<lparr>hit := True\<rparr>)"
     "\<forall>x' y'. (x', y') \<noteq> (0, 0) \<longrightarrow>
        getCell (readBoard (hh_heap q) (hh_board q)) x' y' = getCell (readBoard demoHeap demoRefs) x' y'"
     "\<forall>k. shipId \<lparr>hasShip = True, hit = False, shipId = Some 1\<rparr> \<noteq> Some k \<longrightarrow>
        map_of (hh_ships q) k = map_of (placedShips (constDraws 0)) k"
     "hh_ships q \<noteq> placedShips (constDraws 0) \<longleftrightarrow> hasShip \<lparr>hasShip = True, hit = False, shipId = Some 1\<rparr>"
    by auto
  have "getCell (readBoard (hh_heap q) (hh_board q)) 5 5 = getCell (readBoard demoHeap demoRefs) 5 5"
    using q(4) ne by blast
  moreover have "map_of (hh_ships q) 2 = map_of (placedShips (constDraws 0)) 2"
    using q(5) by simp
  moreover have "hh_ships q \<noteq> placedShips (constDraws 0)"
    using q(6) by simp
  ultimately show ?thesis
    using demo_heap(1) con inBounds_demo(1) c q(1,2,3) by auto
qed

section \<open>Turns keep the game consistent\<close>

lemma firedKept_refl: "firedKept b b"
  by (auto simp: firedKept_def)

lemma firedKept_trans: "firedKept a b \<Longrightarrow> firedKept b c \<Longrightarrow> firedKept a c"
  unfolding firedKept_def by blast

lemma firedKept_mark:
  assumes "wf_board b" and "inBounds x y"
  shows "firedKept b (setCell b x y (c\<lparr>hit := True\<rparr>))"
  unfolding firedKept_def by (auto simp: getCell_setCell[OF assms])

lemma registerHit_kept:
  assumes "wf_board board" and "inBounds x y" and "registerHit board ships x y = Inr r"
  shows "firedKept board (hr_board r)"
proof -
  obtain c where c: "getCell board x y = Some c"
    using wf_getCell[OF assms(1,2)] by simp
  show ?thesis
    unfolding registerHit_board[OF c assms(3)]
    using firedKept_refl firedKept_mark[OF assms(1,2)] by simp
qed

lemma candidatesFrom_wf:
  assumes "wf_board b" and "set ps \<subseteq> set allCoords"
  shows "candidatesFrom b ps =
     Inr (filter (\<lambda>p. case getCell b (fst p) (snd p) of None \<Rightarrow> False | Some c \<Rightarrow> \<not> hit c) ps)"
  using assms(2)
proof (induction ps)
  case Nil
  show ?case by simp
next
  case (Cons p ps)
  obtain x y where p: "p = (x, y)" by (cases p)
  have "inBounds x y" using Cons.prems by (simp add: p set_allCoords)
  then have "getCell b x y = Some (b ! nat y ! nat x)"
    by (rule wf_getCell[OF assms(1)])
  then show ?case using Cons by (simp add: p)
qed

lemma candidates_unfired:
  "wf_board b \<Longrightarrow> candidatesFrom b allCoords = Inr (cellsWhere (\<lambda>c. \<not> hit c) b)"
  by (simp add: candidatesFrom_wf cellsWhere_def)

lemma floor_pick:
  fixes r :: real
  assumes "0 \<le> r" and "r < 1" and "0 < n"
  shows "0 \<le> \<lfloor>r * of_nat n\<rfloor> \<and> \<lfloor>r * of_nat n\<rfloor> < int n"
proof -
  have "r * of_nat n < of_nat n"
    using assms by simp
  then have "\<lfloor>r * of_nat n\<rfloor> < int n"
    by (simp add: floor_less_iff)
  moreover have "0 \<le> r * of_nat n" using assms by simp
  ultimately show ?thesis by simp
qed

lemma playerFire_inv:
  assumes "gameInv g" and "inBounds x y"
  shows "\<exists>g'. playerFire g x y = Inr g' \<and> gameInv g' \<and>
     firedKept (playerBoard g) (playerBoard g') \<and> firedKept (cpuBoard g) (cpuBoard g')"
proof (cases "gameOver g \<noteq> None \<or> \<not> playerTurn g")
  case True
  then show ?thesis using assms(1) by (simp add: playerFire_def firedKept_refl)
next
  case False
  have con: "consistent (cpuBoard g) (cpuShips g)" using assms(1) by (simp add: gameInv_def)
  obtain r where r: "registerHit (cpuBoard g) (cpuShips g) x y = Inr r"
    "consistent (hr_board r) (hr_ships r)"
    using registerHit_consistent[OF con assms(2)] by blast
  have kept: "firedKept (cpuBoard g) (hr_board r)"
    by (rule registerHit_kept[OF consistent_wf[OF con] assms(2) r(1)])
  show ?thesis
    using False r kept assms(1)
    by (simp add: playerFire_def Let_def gameInv_def firedKept_refl)
qed

lemma cpuFire_inv:
  assumes "gameInv g" and "0 \<le> r" and "r < 1"
  shows "\<exists>g'. cpuFire captured g r = Inr g' \<and> gameInv g' \<and>
     firedKept (playerBoard g) (playerBoard g') \<and> firedKept (cpuBoard g) (cpuBoard g')"
proof (cases "captured \<noteq> None")
  case True
  then show ?thesis using assms(1) by (simp add: cpuFire_def firedKept_refl)
next
  case False
  have con: "consistent (playerBoard g) (playerShips g)" using assms(1) by (simp add: gameInv_def)
  have wf: "wf_board (playerBoard g)" by (rule consistent_wf[OF con])
  define cs where "cs = cellsWhere (\<lambda>c. \<not> hit c) (playerBoard g)"
  have cands: "candidatesFrom (playerBoard g) allCoords = Inr cs"
    unfolding cs_def by (rule candidates_unfired[OF wf])
  show ?thesis
  proof (cases "cs = []")
    case True
    then show ?thesis using False cands assms(1) by (simp add: cpuFire_def firedKept_refl)
  next
    case ne: False
    define i where "i = \<lfloor>r * of_nat (length cs)\<rfloor>"
    have i: "0 \<le> i" "i < int (length cs)"
      using floor_pick[OF assms(2,3), of "length cs"] ne by (simp_all add: i_def)
    define pick where "pick = cs ! nat i"
    have "pick \<in> set cs" unfolding pick_def using i by simp
    then have inb: "inBounds (fst pick) (snd pick)"
      by (simp add: cs_def set_cellsWhere)
    obtain res where res: "registerHit (playerBoard g) (playerShips g) (fst pick) (snd pick) = Inr res"
      "consistent (hr_board res) (hr_ships res)"
      using registerHit_consistent[OF con inb] by blast
    have kept: "firedKept (playerBoard g) (hr_board res)"
      by (rule registerHit_kept[OF wf inb res(1)])
    show ?thesis
      using False cands ne i res kept assms(1)
      by (simp add: cpuFire_def Let_def gameInv_def firedKept_refl i_def[symmetric] pick_def[symmetric])
  qed
qed

lemma serve_inv:
  assumes "gameInv g" and "validRequest q"
  shows "\<exists>g'. serve g q = Inr g' \<and> gameInv g' \<and>
     firedKept (playerBoard g) (playerBoard g') \<and> firedKept (cpuBoard g) (cpuBoard g')"
  using assms playerFire_inv cpuFire_inv by (cases q) simp_all

lemma serveAll_inv:
  assumes "gameInv g" and "list_all validRequest qs"
  shows "\<exists>g'. serveAll g qs = Inr g' \<and> gameInv g' \<and>
     firedKept (playerBoard g) (playerBoard g') \<and> firedKept (cpuBoard g) (cpuBoard g')"
  using assms
proof (induction qs arbitrary: g)
  case Nil
  then show ?case by (simp add: firedKept_refl)
next
  case (Cons q qs)
  obtain g1 where g1: "serve g q = Inr g1" "gameInv g1"
    "firedKept (playerBoard g) (playerBoard g1)" "firedKept (cpuBoard g) (cpuBoard g1)"
    using serve_inv[OF Cons.prems(1), of q] Cons.prems(2) by auto
  obtain g' where g': "serveAll g1 qs = Inr g'" "gameInv g'"
    "firedKept (playerBoard g1) (playerBoard g')" "firedKept (cpuBoard g1) (cpuBoard g')"
    using Cons.IH[OF g1(2)] Cons.prems(2) by auto
  show ?case
    using g1 g' firedKept_trans by (simp; blast)
qed

lemma newGame_inv:
  "\<exists>g0. newGame rnd g = Inr g0 \<and> gameInv g0 \<and> gameOver g0 = None \<and> playerTurn g0"
proof -
  obtain p where p: "placing rnd = Inr p" "placedInv p"
    using placing_inv by blast
  obtain c where c: "placing (\<lambda>n. rnd (p_calls p + n)) = Inr c" "placedInv c"
    using placing_inv by blast
  show ?thesis
    using p c placedInv_consistent by (simp add: newGame_def gameInv_def)
qed

lemma consistent_cellInv: "consistent b ships \<Longrightarrow> cellInv b"
  unfolding consistent_def cellsLinked_def cellInv_def by blast

lemma consistent_shipInv: "consistent b ships \<Longrightarrow> shipInv ships"
  unfolding consistent_def shipsCounted_def shipInv_def
  using fired_le by auto

lemma shotsAt_over: "gameOver g \<noteq> None \<Longrightarrow> serveAll g (shotsAt cs) = Inr g"
  by (induction cs) (simp_all add: shotsAt_def playerFire_def)

lemma newGame_demo: "newGame (constDraws 0) initialGame = Inr demoGame"
proof -
  have "(\<lambda>n. constDraws 0 (k + n)) = constDraws 0" for k
    by (simp add: constDraws_def fun_eq_iff)
  then show ?thesis
    by (simp add: newGame_def placing_zero demoGame_def placed_zero initialGame_def)
qed

lemma demo_board_cells:
  "occupiedCells (placedBoard (constDraws 0)) = [(0, 0), (1, 0), (2, 0), (3, 0)]"
  "cellsWhere (\<lambda>c. \<not> hit c) (placedBoard (constDraws 0)) = allCoords"
  "cellsWhere (\<lambda>c. \<not> hit c) createEmptyBoard = allCoords"
  "allCoords ! 0 = (0, 0)"
  "length allCoords = 100"
  unfolding placed_zero by code_simp+

lemma demo_candidates:
  "candidatesFrom (placedBoard (constDraws 0)) allCoords = Inr allCoords"
  "candidatesFrom createEmptyBoard allCoords = Inr allCoords"
  using candidates_unfired[OF consistent_wf[OF placedBoard_consistent], of "constDraws 0"]
    candidates_unfired[OF wf_createEmptyBoard]
  by (simp_all add: demo_board_cells)

section \<open>The turn rule, the end of the game, the empty fleet\<close>

lemma checkWin_fullySunk: "shipInv ships \<Longrightarrow> checkWin ships = fullySunk ships"
  unfolding checkWin_def fullySunk_def shipInv_def list_all_iff by fastforce

lemma gameInv_demo: "gameInv demoGame"
  using newGame_inv[of "constDraws 0" initialGame] by (simp add: newGame_demo)

lemma stateAfter_inv:
  assumes "gameInv g" and "list_all validRequest qs"
  shows "serveAll g qs = Inr (stateAfter g qs)" and "gameInv (stateAfter g qs)"
  using serveAll_inv[OF assms] by (auto simp: stateAfter_def)

lemma lastGames_inv: "gameInv cpuLastGame" "gameInv playerLastGame"
proof -
  show c: "gameInv cpuLastGame"
    unfolding cpuLastGame_def
    by (rule stateAfter_inv(2)[OF gameInv_demo]) (simp add: inBounds_demo)
  show "gameInv playerLastGame"
    unfolding playerLastGame_def
    by (rule stateAfter_inv(2)[OF c]) (simp add: inBounds_def BOARD_SIZE_def)
qed

lemma lastGames_state:
  "gameOver cpuLastGame = None"
  "cellsWhere (\<lambda>c. \<not> hit c) (playerBoard cpuLastGame) \<noteq> []"
  "cellsWhere (\<lambda>c. \<not> hit c) (playerBoard cpuLastGame) ! 0 = (3, 0)"
  "map_sum id (\<lambda>r. (hr_ships r, hr_result r))
     (registerHit (playerBoard cpuLastGame) (playerShips cpuLastGame) 3 0) =
   Inr ([(1, \<lparr>id_ship = 1, size_ship = 4, hits = 4\<rparr>)], Sunk)"
  "gameOver playerLastGame = None"
  "playerTurn playerLastGame"
  "map_sum id (\<lambda>r. (hr_ships r, hr_result r))
     (registerHit (cpuBoard playerLastGame) (cpuShips playerLastGame) 3 0) =
   Inr ([(1, \<lparr>id_ship = 1, size_ship = 4, hits = 4\<rparr>)], Sunk)"
  unfolding playerLastGame_def cpuLastGame_def stateAfter_def demoGame_def placed_zero
  by code_simp+

lemma demo_half:
  "allCoords ! 50 = (0, 5)"
  "map_sum id (\<lambda>r. (hr_ships r, hr_result r))
     (registerHit (placedBoard (constDraws 0)) (placedShips (constDraws 0)) 0 5) =
   Inr ([(1, \<lparr>id_ship = 1, size_ship = 4, hits = 0\<rparr>)], Miss)"
  unfolding placed_zero by code_simp+

text \<open>
  C4. A shot resolved from a state of the data model that is not over (a player's shot
  at a cell of the grid when it is the player's turn; a CPU shot at the cell it picks
  among the cells not yet fired at). When every ship of the fleet fired at has as many
  hits as its size afterwards, the state is over and the side that fired has won;
  otherwise the state is not over, a miss passes the turn and any other outcome leaves
  it with the side that fired. The test for the sunk fleet comes first, after every
  shot. First conjunct: the player's shot; second: the CPU's.
\<close>

theorem turn_rule:
  "(gameInv g \<and> gameOver g = None \<and> playerTurn g \<and> inBounds x y \<longrightarrow>
      (\<exists>res g'. registerHit (cpuBoard g) (cpuShips g) x y = Inr res \<and>
         playerFire g x y = Inr g' \<and>
         cpuBoard g' = hr_board res \<and> cpuShips g' = hr_ships res \<and>
         (if fullySunk (cpuShips g') then gameOver g' = Some Player
          else gameOver g' = None \<and> playerTurn g' = (hr_result res \<noteq> Miss)))) \<and>
   (gameInv g \<and> gameOver g = None \<and>
    candidatesFrom (playerBoard g) allCoords = Inr cs \<and> cs \<noteq> [] \<and>
    0 \<le> r \<and> r < 1 \<and> pick = cs ! nat \<lfloor>r * of_nat (length cs)\<rfloor> \<longrightarrow>
      (\<exists>res g'. registerHit (playerBoard g) (playerShips g) (fst pick) (snd pick) = Inr res \<and>
         cpuFire None g r = Inr g' \<and>
         playerBoard g' = hr_board res \<and> playerShips g' = hr_ships res \<and>
         (if fullySunk (playerShips g') then gameOver g' = Some Cpu
          else gameOver g' = None \<and> playerTurn g' = (hr_result res = Miss))))"
proof (intro conjI impI)
  assume a: "gameInv g \<and> gameOver g = None \<and> playerTurn g \<and> inBounds x y"
  then have con: "consistent (cpuBoard g) (cpuShips g)" and inb: "inBounds x y"
    by (simp_all add: gameInv_def)
  obtain res where res: "registerHit (cpuBoard g) (cpuShips g) x y = Inr res"
    "consistent (hr_board res) (hr_ships res)"
    using registerHit_consistent[OF con inb] by blast
  have eq: "checkWin (hr_ships res) = fullySunk (hr_ships res)"
    by (rule checkWin_fullySunk[OF consistent_shipInv[OF res(2)]])
  show "\<exists>res g'. registerHit (cpuBoard g) (cpuShips g) x y = Inr res \<and>
         playerFire g x y = Inr g' \<and>
         cpuBoard g' = hr_board res \<and> cpuShips g' = hr_ships res \<and>
         (if fullySunk (cpuShips g') then gameOver g' = Some Player
          else gameOver g' = None \<and> playerTurn g' = (hr_result res \<noteq> Miss))"
    using a res(1) eq by (intro exI[of _ res]) (simp add: playerFire_def Let_def)
next
  assume a: "gameInv g \<and> gameOver g = None \<and>
    candidatesFrom (playerBoard g) allCoords = Inr cs \<and> cs \<noteq> [] \<and>
    0 \<le> r \<and> r < 1 \<and> pick = cs ! nat \<lfloor>r * of_nat (length cs)\<rfloor>"
  then have con: "consistent (playerBoard g) (playerShips g)"
    and live: "gameOver g = None"
    and cands: "candidatesFrom (playerBoard g) allCoords = Inr cs" "cs \<noteq> []"
    and r: "0 \<le> r" "r < 1"
    and pick: "pick = cs ! nat \<lfloor>r * of_nat (length cs)\<rfloor>"
    by (simp_all add: gameInv_def)
  have wf: "wf_board (playerBoard g)" by (rule consistent_wf[OF con])
  have cs: "cs = cellsWhere (\<lambda>c. \<not> hit c) (playerBoard g)"
    using cands(1) candidates_unfired[OF wf] by simp
  have i: "0 \<le> \<lfloor>r * of_nat (length cs)\<rfloor>" "\<lfloor>r * of_nat (length cs)\<rfloor> < int (length cs)"
    using floor_pick[OF r, of "length cs"] cands(2) by simp_all
  have range: "\<not> (\<lfloor>r * of_nat (length cs)\<rfloor> < 0 \<or> \<lfloor>r * of_nat (length cs)\<rfloor> \<ge> int (length cs))"
    using i by linarith
  have "nat \<lfloor>r * of_nat (length cs)\<rfloor> < length cs" using i by linarith
  then have "pick \<in> set cs" unfolding pick by (rule nth_mem)
  then have inb: "inBounds (fst pick) (snd pick)"
    by (simp add: cs set_cellsWhere)
  obtain res where res: "registerHit (playerBoard g) (playerShips g) (fst pick) (snd pick) = Inr res"
    "consistent (hr_board res) (hr_ships res)"
    using registerHit_consistent[OF con inb] by blast
  have reg: "registerHit (playerBoard g) (playerShips g)
      (fst (cs ! nat \<lfloor>r * of_nat (length cs)\<rfloor>)) (snd (cs ! nat \<lfloor>r * of_nat (length cs)\<rfloor>)) = Inr res"
    using res(1) unfolding pick .
  have eq: "checkWin (hr_ships res) = fullySunk (hr_ships res)"
    by (rule checkWin_fullySunk[OF consistent_shipInv[OF res(2)]])
  have "\<exists>g'. cpuFire None g r = Inr g' \<and>
         playerBoard g' = hr_board res \<and> playerShips g' = hr_ships res \<and>
         (if fullySunk (playerShips g') then gameOver g' = Some Cpu
          else gameOver g' = None \<and> playerTurn g' = (hr_result res = Miss))"
    unfolding cpuFire_def Let_def
    by (simp only: cands range reg sum.case if_False if_True simp_thms) (simp add: live eq)
  then show "\<exists>res g'. registerHit (playerBoard g) (playerShips g) (fst pick) (snd pick) = Inr res \<and>
         cpuFire None g r = Inr g' \<and>
         playerBoard g' = hr_board res \<and> playerShips g' = hr_ships res \<and>
         (if fullySunk (playerShips g') then gameOver g' = Some Cpu
          else gameOver g' = None \<and> playerTurn g' = (hr_result res = Miss))"
    using res(1) by blast
qed

theorem turn_rule_witness:
  "gameInv demoGame \<and> gameOver demoGame = None \<and> playerTurn demoGame \<and>
   inBounds 5 5 \<and> inBounds 0 0 \<and>
   (\<exists>g'. playerFire demoGame 5 5 = Inr g' \<and> \<not> fullySunk (cpuShips g') \<and>
      gameOver g' = None \<and> \<not> playerTurn g') \<and>
   (\<exists>g'. playerFire demoGame 0 0 = Inr g' \<and> \<not> fullySunk (cpuShips g') \<and>
      gameOver g' = None \<and> playerTurn g') \<and>
   gameInv playerLastGame \<and> gameOver playerLastGame = None \<and> playerTurn playerLastGame \<and>
   inBounds 3 0 \<and>
   (\<exists>g'. playerFire playerLastGame 3 0 = Inr g' \<and> fullySunk (cpuShips g') \<and>
      gameOver g' = Some Player) \<and>
   candidatesFrom (playerBoard demoGame) allCoords = Inr allCoords \<and> allCoords \<noteq> [] \<and>
   (\<exists>g'. cpuFire None demoGame 0 = Inr g' \<and> \<not> fullySunk (playerShips g') \<and>
      gameOver g' = None \<and> \<not> playerTurn g') \<and>
   (\<exists>g'. cpuFire None demoGame (1 / 2) = Inr g' \<and> \<not> fullySunk (playerShips g') \<and>
      gameOver g' = None \<and> playerTurn g') \<and>
   gameInv cpuLastGame \<and> gameOver cpuLastGame = None \<and>
   candidatesFrom (playerBoard cpuLastGame) allCoords =
     Inr (cellsWhere (\<lambda>c. \<not> hit c) (playerBoard cpuLastGame)) \<and>
   cellsWhere (\<lambda>c. \<not> hit c) (playerBoard cpuLastGame) \<noteq> [] \<and>
   (\<exists>g'. cpuFire None cpuLastGame 0 = Inr g' \<and> fullySunk (playerShips g') \<and>
      gameOver g' = Some Cpu)"
proof -
  let ?zero = "[(1, \<lparr>id_ship = 1, size_ship = 4, hits = 0\<rparr>)]"
  let ?one = "[(1, \<lparr>id_ship = 1, size_ship = 4, hits = 1\<rparr>)]"
  let ?four = "[(1, \<lparr>id_ship = 1, size_ship = 4, hits = 4\<rparr>)]"
  have sunk: "\<not> fullySunk ?zero" "\<not> fullySunk ?one" "fullySunk ?four"
    by (simp_all add: fullySunk_def)
  have live: "gameOver demoGame = None" "playerTurn demoGame"
    by (simp_all add: demoGame_def initialGame_def)
  have sides: "cpuBoard demoGame = placedBoard (constDraws 0)"
    "cpuShips demoGame = placedShips (constDraws 0)"
    "playerBoard demoGame = placedBoard (constDraws 0)"
    "playerShips demoGame = placedShips (constDraws 0)"
    by (simp_all add: demoGame_def)
  have inb: "inBounds 5 5" "inBounds 0 0" "inBounds 3 0"
    by (simp_all add: inBounds_def BOARD_SIZE_def)
  note pl = turn_rule[THEN conjunct1, rule_format]
  note cp = turn_rule[THEN conjunct2, rule_format]
  have p1: "\<exists>g'. playerFire demoGame 5 5 = Inr g' \<and> \<not> fullySunk (cpuShips g') \<and>
      gameOver g' = None \<and> \<not> playerTurn g'"
  proof -
    from pl[of demoGame 5 5] gameInv_demo live inb(1)
    obtain res g' where g': "registerHit (cpuBoard demoGame) (cpuShips demoGame) 5 5 = Inr res"
      "playerFire demoGame 5 5 = Inr g'" "cpuShips g' = hr_ships res"
      "if fullySunk (cpuShips g') then gameOver g' = Some Player
       else gameOver g' = None \<and> playerTurn g' = (hr_result res \<noteq> Miss)"
      by blast
    have "hr_ships res = ?zero \<and> hr_result res = Miss"
      using g'(1) unfolding sides demo_miss by (auto simp: placed_zero(1))
    then show ?thesis using g' sunk by auto
  qed
  have p2: "\<exists>g'. playerFire demoGame 0 0 = Inr g' \<and> \<not> fullySunk (cpuShips g') \<and>
      gameOver g' = None \<and> playerTurn g'"
  proof -
    from pl[of demoGame 0 0] gameInv_demo live inb(2)
    obtain res g' where g': "registerHit (cpuBoard demoGame) (cpuShips demoGame) 0 0 = Inr res"
      "playerFire demoGame 0 0 = Inr g'" "cpuShips g' = hr_ships res"
      "if fullySunk (cpuShips g') then gameOver g' = Some Player
       else gameOver g' = None \<and> playerTurn g' = (hr_result res \<noteq> Miss)"
      by blast
    have "hr_ships res = ?one \<and> hr_result res = Hit"
      using g'(1) unfolding sides demo_hit by auto
    then show ?thesis using g' sunk by auto
  qed
  have p3: "\<exists>g'. playerFire playerLastGame 3 0 = Inr g' \<and> fullySunk (cpuShips g') \<and>
      gameOver g' = Some Player"
  proof -
    from pl[of playerLastGame 3 0] lastGames_inv(2) lastGames_state(5,6) inb(3)
    obtain res g' where g': "registerHit (cpuBoard playerLastGame) (cpuShips playerLastGame) 3 0 = Inr res"
      "playerFire playerLastGame 3 0 = Inr g'" "cpuShips g' = hr_ships res"
      "if fullySunk (cpuShips g') then gameOver g' = Some Player
       else gameOver g' = None \<and> playerTurn g' = (hr_result res \<noteq> Miss)"
      by blast
    have "hr_ships res = ?four"
      using lastGames_state(7) unfolding g'(1) by simp
    then show ?thesis using g' sunk by auto
  qed
  have cands: "candidatesFrom (playerBoard demoGame) allCoords = Inr allCoords"
    using demo_candidates(1) by (simp add: demoGame_def)
  have ne: "allCoords \<noteq> []"
    using demo_board_cells(5) by auto
  have c1: "\<exists>g'. cpuFire None demoGame 0 = Inr g' \<and> \<not> fullySunk (playerShips g') \<and>
      gameOver g' = None \<and> \<not> playerTurn g'"
  proof -
    have pick: "(0, 0) = allCoords ! nat \<lfloor>0 * real (length allCoords)\<rfloor>"
      by (simp add: demo_board_cells(4))
    have h: "gameInv demoGame \<and> gameOver demoGame = None \<and>
      candidatesFrom (playerBoard demoGame) allCoords = Inr allCoords \<and> allCoords \<noteq> [] \<and>
      (0::real) \<le> 0 \<and> (0::real) < 1 \<and> (0, 0) = allCoords ! nat \<lfloor>0 * real (length allCoords)\<rfloor>"
      using gameInv_demo live cands ne pick by simp
    from cp[of demoGame allCoords 0 "(0, 0)", OF h]
    obtain res g' where g': "registerHit (playerBoard demoGame) (playerShips demoGame) (fst (0::int, 0::int)) (snd (0::int, 0::int)) = Inr res"
      "cpuFire None demoGame 0 = Inr g'" "playerShips g' = hr_ships res"
      "if fullySunk (playerShips g') then gameOver g' = Some Cpu
       else gameOver g' = None \<and> playerTurn g' = (hr_result res = Miss)"
      by blast
    have "hr_ships res = ?one \<and> hr_result res = Hit"
      using g'(1) unfolding sides by (auto simp: demo_hit)
    then show ?thesis using g' sunk by auto
  qed
  have c2: "\<exists>g'. cpuFire None demoGame (1 / 2) = Inr g' \<and> \<not> fullySunk (playerShips g') \<and>
      gameOver g' = None \<and> playerTurn g'"
  proof -
    have pick: "(0, 5) = allCoords ! nat \<lfloor>1 / 2 * real (length allCoords)\<rfloor>"
      by (simp add: demo_board_cells(5) demo_half(1))
    have h: "gameInv demoGame \<and> gameOver demoGame = None \<and>
      candidatesFrom (playerBoard demoGame) allCoords = Inr allCoords \<and> allCoords \<noteq> [] \<and>
      (0::real) \<le> 1 / 2 \<and> (1 / 2 ::real) < 1 \<and>
      (0, 5) = allCoords ! nat \<lfloor>1 / 2 * real (length allCoords)\<rfloor>"
      using gameInv_demo live cands ne pick by simp
    from cp[of demoGame allCoords "1 / 2" "(0, 5)", OF h]
    obtain res g' where g': "registerHit (playerBoard demoGame) (playerShips demoGame) (fst (0::int, 5::int)) (snd (0::int, 5::int)) = Inr res"
      "cpuFire None demoGame (1 / 2) = Inr g'" "playerShips g' = hr_ships res"
      "if fullySunk (playerShips g') then gameOver g' = Some Cpu
       else gameOver g' = None \<and> playerTurn g' = (hr_result res = Miss)"
      by blast
    have "hr_ships res = ?zero \<and> hr_result res = Miss"
      using demo_half(2) g'(1) unfolding sides by simp
    then show ?thesis using g' sunk by auto
  qed
  let ?cs = "cellsWhere (\<lambda>c. \<not> hit c) (playerBoard cpuLastGame)"
  have cands3: "candidatesFrom (playerBoard cpuLastGame) allCoords = Inr ?cs"
  proof -
    have "wf_board (playerBoard cpuLastGame)"
      using lastGames_inv(1) consistent_wf by (auto simp: gameInv_def)
    then show ?thesis by (rule candidates_unfired)
  qed
  have c3: "\<exists>g'. cpuFire None cpuLastGame 0 = Inr g' \<and> fullySunk (playerShips g') \<and>
      gameOver g' = Some Cpu"
  proof -
    have pick: "(3, 0) = ?cs ! nat \<lfloor>0 * real (length ?cs)\<rfloor>"
      by (simp add: lastGames_state(3))
    have h: "gameInv cpuLastGame \<and> gameOver cpuLastGame = None \<and>
      candidatesFrom (playerBoard cpuLastGame) allCoords = Inr ?cs \<and> ?cs \<noteq> [] \<and>
      (0::real) \<le> 0 \<and> (0::real) < 1 \<and> (3, 0) = ?cs ! nat \<lfloor>0 * real (length ?cs)\<rfloor>"
      using lastGames_inv(1) lastGames_state(1,2) cands3 pick by simp
    from cp[of cpuLastGame ?cs 0 "(3, 0)", OF h]
    obtain res g' where g': "registerHit (playerBoard cpuLastGame) (playerShips cpuLastGame) (fst (3::int, 0::int)) (snd (3::int, 0::int)) = Inr res"
      "cpuFire None cpuLastGame 0 = Inr g'" "playerShips g' = hr_ships res"
      "if fullySunk (playerShips g') then gameOver g' = Some Cpu
       else gameOver g' = None \<and> playerTurn g' = (hr_result res = Miss)"
      by blast
    have "hr_ships res = ?four"
      using lastGames_state(4) g'(1) by simp
    then show ?thesis using g' sunk by auto
  qed
  show ?thesis
    using gameInv_demo live inb p1 p2 lastGames_inv lastGames_state(1,2,5,6) p3 cands ne c1 c2
      cands3 c3
    by blast
qed

lemma playerFire_over: "gameOver g \<noteq> None \<Longrightarrow> playerFire g x y = Inr g"
  by (simp add: playerFire_def)

lemma cpuFire_guard: "captured \<noteq> None \<Longrightarrow> cpuFire captured g r = Inr g"
  by (simp add: cpuFire_def)

lemma newGame_zero:
  "newGame (constDraws 0) g =
     Inr (g\<lparr>playerBoard := placedBoard (constDraws 0), cpuBoard := placedBoard (constDraws 0),
            playerShips := placedShips (constDraws 0), cpuShips := placedShips (constDraws 0),
            playerTurn := True, gameOver := None, cpuLastShot := None,
            playerShots := 0, computerShots := 0\<rparr>)"
proof -
  have "(\<lambda>n. constDraws 0 (k + n)) = constDraws 0" for k
    by (simp add: constDraws_def fun_eq_iff)
  then show ?thesis
    by (simp add: newGame_def placing_zero placed_zero)
qed

text \<open>
  C7 fails for the CPU's shots. A click of the player on a game that is over changes
  nothing (\<open>playerFire_over\<close>), and so does a \<^verbatim>\<open>cpuFire\<close> made in a render in which the
  game was over (\<open>cpuFire_guard\<close>); but no timer holds such a function. In
  \<open>finishedGame\<close> the CPU has won after four shots and a timer is pending: when it
  fires, \<^verbatim>\<open>cpuFire\<close> fires at the cell \<open>(4, 0)\<close> of the player's board, which was not
  fired at, counts a fifth shot and sets the outcome once more.
\<close>

theorem stale_cpu_fire:
  "gameOver finishedGame = Some Cpu \<and> fullySunk (playerShips finishedGame) \<and>
   computerShots finishedGame = 4 \<and> cpuTimers finishedGame = 5 \<and>
   getCell (playerBoard finishedGame) 4 0 = Some \<lparr>hasShip = False, hit = False, shipId = None\<rparr> \<and>
   serve finishedGame (PlayerShot 4 0) = Inr finishedGame \<and>
   cpuFire (gameOver finishedGame) finishedGame 0 = Inr finishedGame \<and>
   serve finishedGame (CpuShot 0) \<noteq> Inr finishedGame \<and>
   (\<exists>g'. serve finishedGame (CpuShot 0) = Inr g' \<and>
      getCell (playerBoard g') 4 0 = Some \<lparr>hasShip = False, hit = True, shipId = None\<rparr> \<and>
      cpuLastShot g' = Some (4, 0) \<and> computerShots g' = 5 \<and> gameOver g' = Some Cpu)"
proof -
  have over: "gameOver finishedGame = Some Cpu"
    and facts: "fullySunk (playerShips finishedGame)"
      "computerShots finishedGame = 4" "cpuTimers finishedGame = 5"
      "getCell (playerBoard finishedGame) 4 0 = Some \<lparr>hasShip = False, hit = False, shipId = None\<rparr>"
    and after: "map_sum id (\<lambda>g'. (getCell (playerBoard g') 4 0, cpuLastShot g', computerShots g', gameOver g'))
         (serve finishedGame (CpuShot 0)) =
       Inr (Some \<lparr>hasShip = False, hit = True, shipId = None\<rparr>, Some (4, 0), 5, Some Cpu)"
    unfolding finishedGame_def restartedGame_def newGame_zero sum.case stateAfter_def
      demoGame_def placed_zero
    by code_simp+
  obtain g' where g': "serve finishedGame (CpuShot 0) = Inr g'"
    "getCell (playerBoard g') 4 0 = Some \<lparr>hasShip = False, hit = True, shipId = None\<rparr>"
    "cpuLastShot g' = Some (4, 0)" "computerShots g' = 5" "gameOver g' = Some Cpu"
    using after by (cases "serve finishedGame (CpuShot 0)") auto
  have ne: "serve finishedGame (CpuShot 0) \<noteq> Inr finishedGame"
    using g'(1,4) facts(2) by auto
  have "serve finishedGame (PlayerShot 4 0) = Inr finishedGame"
    by (simp add: playerFire_over over)
  moreover have "cpuFire (gameOver finishedGame) finishedGame 0 = Inr finishedGame"
    by (rule cpuFire_guard) (simp add: over)
  ultimately show ?thesis
    using over facts ne g' by blast
qed

text \<open>
  C10. \<^verbatim>\<open>checkWin\<close> holds of a fleet without ships, and the first shot that is resolved
  against such a fleet ends the game for the side that fired. The state before
  \<^verbatim>\<open>newGame\<close> has run (\<open>initialGame\<close>) is of this kind.
\<close>

theorem empty_fleet_lost:
  "checkWin [] \<and>
   (gameOver g = None \<and> playerTurn g \<and> cpuShips g = [] \<and>
    registerHit (cpuBoard g) (cpuShips g) x y = Inr res \<longrightarrow>
      (\<exists>g'. playerFire g x y = Inr g' \<and> gameOver g' = Some Player)) \<and>
   (gameOver g = None \<and> playerShips g = [] \<and>
    candidatesFrom (playerBoard g) allCoords = Inr cs \<and> cs \<noteq> [] \<and>
    0 \<le> r \<and> r < 1 \<and> pick = cs ! nat \<lfloor>r * of_nat (length cs)\<rfloor> \<and>
    registerHit (playerBoard g) (playerShips g) (fst pick) (snd pick) = Inr res' \<longrightarrow>
      (\<exists>g'. cpuFire None g r = Inr g' \<and> gameOver g' = Some Cpu))"
proof (intro conjI impI)
  show "checkWin []" by (simp add: checkWin_def)
next
  assume a: "gameOver g = None \<and> playerTurn g \<and> cpuShips g = [] \<and>
    registerHit (cpuBoard g) (cpuShips g) x y = Inr res"
  then have "hr_ships res = []" using registerHit_empty_fleet by metis
  then have "checkWin (hr_ships res)" by (simp add: checkWin_def)
  with a show "\<exists>g'. playerFire g x y = Inr g' \<and> gameOver g' = Some Player"
    by (auto simp: playerFire_def Let_def)
next
  assume a: "gameOver g = None \<and> playerShips g = [] \<and>
    candidatesFrom (playerBoard g) allCoords = Inr cs \<and> cs \<noteq> [] \<and>
    0 \<le> r \<and> r < 1 \<and> pick = cs ! nat \<lfloor>r * of_nat (length cs)\<rfloor> \<and>
    registerHit (playerBoard g) (playerShips g) (fst pick) (snd pick) = Inr res'"
  then have live: "gameOver g = None"
    and cands: "candidatesFrom (playerBoard g) allCoords = Inr cs" "cs \<noteq> []"
    and r: "0 \<le> r" "r < 1"
    and reg: "registerHit (playerBoard g) (playerShips g)
      (fst (cs ! nat \<lfloor>r * of_nat (length cs)\<rfloor>)) (snd (cs ! nat \<lfloor>r * of_nat (length cs)\<rfloor>)) = Inr res'"
    and empty: "playerShips g = []"
    by auto
  have i: "0 \<le> \<lfloor>r * of_nat (length cs)\<rfloor>" "\<lfloor>r * of_nat (length cs)\<rfloor> < int (length cs)"
    using floor_pick[OF r, of "length cs"] cands(2) by simp_all
  have range: "\<not> (\<lfloor>r * of_nat (length cs)\<rfloor> < 0 \<or> \<lfloor>r * of_nat (length cs)\<rfloor> \<ge> int (length cs))"
    using i by linarith
  have "hr_ships res' = []" using registerHit_empty_fleet reg empty by metis
  then have win: "checkWin (hr_ships res')" by (simp add: checkWin_def)
  show "\<exists>g'. cpuFire None g r = Inr g' \<and> gameOver g' = Some Cpu"
    unfolding cpuFire_def Let_def
    by (simp only: live cands range reg sum.case if_False if_True simp_thms win) simp
qed

theorem empty_fleet_lost_witness:
  "gameOver initialGame = None \<and> playerTurn initialGame \<and> cpuShips initialGame = [] \<and>
   playerShips initialGame = [] \<and>
   registerHit (cpuBoard initialGame) (cpuShips initialGame) 0 0 =
     Inr \<lparr>hr_board = setCell createEmptyBoard 0 0 (emptyCell\<lparr>hit := True\<rparr>),
          hr_ships = [], hr_result = Miss\<rparr> \<and>
   candidatesFrom (playerBoard initialGame) allCoords = Inr allCoords \<and> allCoords \<noteq> [] \<and>
   (\<exists>g'. playerFire initialGame 0 0 = Inr g' \<and> gameOver g' = Some Player) \<and>
   (\<exists>g'. cpuFire None initialGame 0 = Inr g' \<and> gameOver g' = Some Cpu)"
proof -
  let ?miss = "\<lparr>hr_board = setCell createEmptyBoard 0 0 (emptyCell\<lparr>hit := True\<rparr>),
          hr_ships = [], hr_result = Miss\<rparr>"
  have live: "gameOver initialGame = None" "playerTurn initialGame" "cpuShips initialGame = []"
    "playerShips initialGame = []"
    by (simp_all add: initialGame_def)
  have miss: "registerHit (cpuBoard initialGame) (cpuShips initialGame) 0 0 = Inr ?miss"
    "registerHit (playerBoard initialGame) (playerShips initialGame) (fst (0, 0)) (snd (0, 0)) = Inr ?miss"
    using empty_miss by (simp_all add: initialGame_def)
  have cands: "candidatesFrom (playerBoard initialGame) allCoords = Inr allCoords"
    using demo_candidates(2) by (simp add: initialGame_def)
  have ne: "allCoords \<noteq> []"
    using demo_board_cells(5) by auto
  have pick: "(0, 0) = allCoords ! nat \<lfloor>0 * real (length allCoords)\<rfloor>"
    by (simp add: demo_board_cells(4))
  have h1: "gameOver initialGame = None \<and> playerTurn initialGame \<and> cpuShips initialGame = [] \<and>
    registerHit (cpuBoard initialGame) (cpuShips initialGame) 0 0 = Inr ?miss"
    using live miss by simp
  have h2: "gameOver initialGame = None \<and> playerShips initialGame = [] \<and>
    candidatesFrom (playerBoard initialGame) allCoords = Inr allCoords \<and> allCoords \<noteq> [] \<and>
    (0::real) \<le> 0 \<and> (0::real) < 1 \<and> (0, 0) = allCoords ! nat \<lfloor>0 * real (length allCoords)\<rfloor> \<and>
    registerHit (playerBoard initialGame) (playerShips initialGame) (fst (0, 0)) (snd (0, 0)) = Inr ?miss"
    using live cands ne pick miss by simp
  have "\<exists>g'. playerFire initialGame 0 0 = Inr g' \<and> gameOver g' = Some Player"
    by (rule empty_fleet_lost[of initialGame 0 0 ?miss, THEN conjunct2, THEN conjunct1, rule_format, OF h1])
  moreover have "\<exists>g'. cpuFire None initialGame 0 = Inr g' \<and> gameOver g' = Some Cpu"
    by (rule empty_fleet_lost[of initialGame _ _ _ allCoords 0 "(0, 0)" ?miss,
          THEN conjunct2, THEN conjunct2, rule_format, OF h2])
  ultimately show ?thesis
    using live miss(1) cands ne by blast
qed

section \<open>Invariants of the data model\<close>

text \<open>
  C9. In every state reached from \<^verbatim>\<open>newGame\<close> by shot requests (player shots in
  bounds, CPU draws in the range of \<^verbatim>\<open>Math.random()\<close>), on both sides every cell has
  a ship id iff it is occupied and every ship has \<open>0 \<le> hits \<le> size\<close>; and a cell fired
  at in a state is fired at in every later state.
\<close>

theorem invariants_preserved:
  assumes "list_all validRequest qs1" and "list_all validRequest qs2"
  shows "\<exists>g0 g1 g2. newGame rnd g = Inr g0 \<and> serveAll g0 qs1 = Inr g1 \<and>
     serveAll g1 qs2 = Inr g2 \<and>
     cellInv (playerBoard g0) \<and> cellInv (cpuBoard g0) \<and>
     shipInv (playerShips g0) \<and> shipInv (cpuShips g0) \<and>
     cellInv (playerBoard g2) \<and> cellInv (cpuBoard g2) \<and>
     shipInv (playerShips g2) \<and> shipInv (cpuShips g2) \<and>
     firedKept (playerBoard g1) (playerBoard g2) \<and> firedKept (cpuBoard g1) (cpuBoard g2)"
proof -
  obtain g0 where g0: "newGame rnd g = Inr g0" "gameInv g0"
    using newGame_inv by blast
  obtain g1 where g1: "serveAll g0 qs1 = Inr g1" "gameInv g1"
    using serveAll_inv[OF g0(2) assms(1)] by blast
  obtain g2 where g2: "serveAll g1 qs2 = Inr g2" "gameInv g2"
    "firedKept (playerBoard g1) (playerBoard g2)" "firedKept (cpuBoard g1) (cpuBoard g2)"
    using serveAll_inv[OF g1(2) assms(2)] by blast
  have "cellInv (playerBoard g0) \<and> cellInv (cpuBoard g0) \<and>
     shipInv (playerShips g0) \<and> shipInv (cpuShips g0)"
    using g0(2) consistent_cellInv consistent_shipInv unfolding gameInv_def by blast
  moreover have "cellInv (playerBoard g2) \<and> cellInv (cpuBoard g2) \<and>
     shipInv (playerShips g2) \<and> shipInv (cpuShips g2)"
    using g2(2) consistent_cellInv consistent_shipInv unfolding gameInv_def by blast
  ultimately show ?thesis
    using g0(1) g1(1) g2(1,3,4) by blast
qed

theorem invariants_preserved_witness:
  "list_all validRequest [PlayerShot 0 0, PlayerShot 5 5] \<and>
   list_all validRequest [CpuShot 0, PlayerShot 0 0] \<and>
   (\<exists>g1 g2. serveAll demoGame [PlayerShot 0 0, PlayerShot 5 5] = Inr g1 \<and>
      serveAll g1 [CpuShot 0, PlayerShot 0 0] = Inr g2 \<and>
      cellInv (cpuBoard g2) \<and> shipInv (cpuShips g2) \<and>
      cellInv (playerBoard g2) \<and> shipInv (playerShips g2) \<and>
      firedKept (cpuBoard g1) (cpuBoard g2) \<and> firedKept (playerBoard g1) (playerBoard g2))"
proof -
  have v1: "list_all validRequest [PlayerShot 0 0, PlayerShot 5 5]"
    and v2: "list_all validRequest [CpuShot 0, PlayerShot 0 0]"
    by (simp_all add: inBounds_demo)
  from invariants_preserved[OF v1 v2, of "constDraws 0" initialGame] v1 v2
  show ?thesis
    unfolding newGame_demo by blast
qed

section \<open>Destroying a fleet\<close>

lemma all_fired_checkWin:
  assumes con: "consistent b ships"
    and all: "\<forall>p \<in> set (occupiedCells b). \<forall>c. getCell b (fst p) (snd p) = Some c \<longrightarrow> hit c"
  shows "checkWin ships"
proof -
  have cl: "cellsLinked b ships" and sc: "shipsCounted b ships"
    using con by (simp_all add: consistent_def)
  have "hits (snd e) \<ge> size_ship (snd e)" if e: "e \<in> set ships" for e
  proof -
    have "set (shipCells b (fst e)) \<subseteq> set (firedCells b (fst e))"
    proof
      fix p assume p: "p \<in> set (shipCells b (fst e))"
      then obtain c where c: "inBounds (fst p) (snd p)" "getCell b (fst p) (snd p) = Some c"
        "shipId c = Some (fst e)"
        by (auto simp: shipCells_def set_cellsWhere)
      have "p \<in> set allCoords" using c(1) by (simp add: set_allCoords)
      then have "hasShip c"
        using cl[unfolded cellsLinked_def, rule_format, of p c] c(2,3) by simp
      then have "p \<in> set (occupiedCells b)"
        using c by (auto simp: occupiedCells_def set_cellsWhere)
      then have "hit c" using all c(2) by blast
      then show "p \<in> set (firedCells b (fst e))"
        using c by (auto simp: firedCells_def set_cellsWhere)
    qed
    then have "card (set (shipCells b (fst e))) \<le> card (set (firedCells b (fst e)))"
      by (simp add: card_mono)
    then have "length (shipCells b (fst e)) \<le> length (firedCells b (fst e))"
      by (simp add: shipCells_def firedCells_def length_cellsWhere)
    then show ?thesis
      using sc[unfolded shipsCounted_def, THEN conjunct2, rule_format, OF e] by simp
  qed
  then show ?thesis
    by (simp add: checkWin_def list_all_iff)
qed

lemma shots_win:
  assumes "gameInv g" and "gameOver g = None" and "playerTurn g"
    and "\<not> checkWin (cpuShips g)"
    and "set cs \<subseteq> set (occupiedCells (cpuBoard g))"
    and "\<forall>p \<in> set (occupiedCells (cpuBoard g)).
           p \<in> set cs \<or> (\<forall>c. getCell (cpuBoard g) (fst p) (snd p) = Some c \<longrightarrow> hit c)"
  shows "\<exists>g'. serveAll g (shotsAt cs) = Inr g' \<and> gameOver g' = Some Player \<and>
     checkWin (cpuShips g')"
  using assms
proof (induction cs arbitrary: g)
  case Nil
  have "consistent (cpuBoard g) (cpuShips g)" using Nil(1) by (simp add: gameInv_def)
  then have "checkWin (cpuShips g)"
    using all_fired_checkWin Nil(6) by simp
  then show ?case using Nil(4) by simp
next
  case (Cons p cs)
  define b where "b = cpuBoard g"
  define ships where "ships = cpuShips g"
  have con: "consistent b ships" using Cons.prems(1) by (simp add: gameInv_def b_def ships_def)
  have wf: "wf_board b" by (rule consistent_wf[OF con])
  have pocc: "p \<in> set (occupiedCells b)" using Cons.prems(5) by (simp add: b_def)
  then obtain c where c: "inBounds (fst p) (snd p)" "getCell b (fst p) (snd p) = Some c" "hasShip c"
    by (auto simp: occupiedCells_def set_cellsWhere)
  obtain r where r: "registerHit b ships (fst p) (snd p) = Inr r" "consistent (hr_board r) (hr_ships r)"
    using registerHit_consistent[OF con c(1)] by blast
  have board: "hr_board r = (if hit c then b else setCell b (fst p) (snd p) (c\<lparr>hit := True\<rparr>))"
    by (rule registerHit_board[OF c(2) r(1)])
  have notmiss: "hr_result r \<noteq> Miss"
  proof (cases "hit c")
    case True
    then show ?thesis using registerHit_fired[OF c(2) True, of ships] r(1) by auto
  next
    case False
    obtain k s where ks: "shipId c = Some k" "k \<noteq> 0" "map_of ships k = Some s"
      using consistent_ship[OF con c(1,2,3)] by blast
    show ?thesis
      using registerHit_ship[OF c(2) False c(3) ks] r(1) by auto
  qed
  have occ: "occupiedCells (hr_board r) = occupiedCells b"
    unfolding board using occupiedCells_mark[OF wf c(1,2)] by simp
  define g1 where "g1 = g\<lparr>cpuBoard := hr_board r, cpuShips := hr_ships r,
                         playerShots := playerShots g + 1\<rparr>"
  have fire: "playerFire g (fst p) (snd p) =
      (if checkWin (hr_ships r) then Inr (g1\<lparr>gameOver := Some Player\<rparr>)
       else Inr (g1\<lparr>playerTurn := True\<rparr>))"
    using Cons.prems(2,3) r(1) notmiss
    by (simp add: playerFire_def Let_def b_def ships_def g1_def)
  show ?case
  proof (cases "checkWin (hr_ships r)")
    case True
    have "serveAll (g1\<lparr>gameOver := Some Player\<rparr>) (shotsAt cs) = Inr (g1\<lparr>gameOver := Some Player\<rparr>)"
      by (rule shotsAt_over) simp
    then show ?thesis
      using fire True by (simp add: shotsAt_def g1_def)
  next
    case False
    let ?g = "g1\<lparr>playerTurn := True\<rparr>"
    have inv: "gameInv ?g"
      using Cons.prems(1) r(2) by (simp add: gameInv_def g1_def)
    have sub: "set cs \<subseteq> set (occupiedCells (cpuBoard ?g))"
      using Cons.prems(5) occ by (simp add: g1_def b_def)
    have rest: "\<forall>q \<in> set (occupiedCells (cpuBoard ?g)).
           q \<in> set cs \<or> (\<forall>c'. getCell (cpuBoard ?g) (fst q) (snd q) = Some c' \<longrightarrow> hit c')"
    proof
      fix q assume q: "q \<in> set (occupiedCells (cpuBoard ?g))"
      then have qb: "q \<in> set (occupiedCells b)" using occ by (simp add: g1_def)
      show "q \<in> set cs \<or> (\<forall>c'. getCell (cpuBoard ?g) (fst q) (snd q) = Some c' \<longrightarrow> hit c')"
      proof (cases "q = p")
        case True
        have "\<forall>c'. getCell (hr_board r) (fst p) (snd p) = Some c' \<longrightarrow> hit c'"
          unfolding board using c(2) by (simp add: getCell_setCell[OF wf c(1)])
        then show ?thesis using True by (simp add: g1_def)
      next
        case False
        then have old: "q \<in> set cs \<or> (\<forall>c'. getCell b (fst q) (snd q) = Some c' \<longrightarrow> hit c')"
          using Cons.prems(6) qb by (auto simp: b_def)
        have "getCell (hr_board r) (fst q) (snd q) = getCell b (fst q) (snd q)"
          unfolding board using False by (auto simp: getCell_setCell[OF wf c(1)] prod_eq_iff)
        then show ?thesis using old by (simp add: g1_def)
      qed
    qed
    have "\<exists>g'. serveAll ?g (shotsAt cs) = Inr g' \<and> gameOver g' = Some Player \<and>
       checkWin (cpuShips g')"
      by (rule Cons.IH[OF inv _ _ _ sub rest])
        (use Cons.prems(2) False in \<open>simp_all add: g1_def\<close>)
    then show ?thesis
      using fire False by (simp add: shotsAt_def)
  qed
qed

lemma tryPlace_success:
  assumes "a < 500"
    and "canPlaceShip (p_board st)
     \<lfloor>rnd (p_calls st + 1) * of_int (if rnd (p_calls st) < 1 / 2 then BOARD_SIZE - sz + 1 else BOARD_SIZE)\<rfloor>
     \<lfloor>rnd (p_calls st + 2) * of_int (if rnd (p_calls st) < 1 / 2 then BOARD_SIZE else BOARD_SIZE - sz + 1)\<rfloor>
     sz (rnd (p_calls st) < 1 / 2) = Inr True"
  shows "\<exists>st'. tryPlace rnd st sz a = Inr st' \<and>
     p_ships st' = AList.update (p_shipId st)
        \<lparr>id_ship = p_shipId st, size_ship = sz, hits = 0\<rparr> (p_ships st)"
  by (subst tryPlace.simps) (simp only: assms Let_def if_True sum.case not_True_eq_False if_False Placing.simps, simp)

lemma placing_nonempty:
  fixes rnd :: "nat \<Rightarrow> real"
  assumes "\<forall>n. 0 \<le> rnd n \<and> rnd n < 1" and "placing rnd = Inr st"
  shows "p_ships st \<noteq> []"
proof -
  define init where "init = \<lparr>p_board = createEmptyBoard, p_ships = [], p_shipId = 1, p_calls = 0\<rparr>"
  have b: "p_board init = createEmptyBoard" by (simp add: init_def)
  obtain st1 where t: "tryPlace rnd init 4 0 = Inr st1"
    and s1: "p_ships st1 = AList.update (p_shipId init)
        \<lparr>id_ship = p_shipId init, size_ship = 4, hits = 0\<rparr> (p_ships init)"
    using tryPlace_success[of 0 init rnd 4] first_ship_fits[OF assms(1), of "p_calls init"]
    unfolding b by auto
  have inv1: "placedInv st1"
    using tryPlace_inv[OF placedInv_init, of 4 rnd 0] t by (simp add: init_def)
  have "\<forall>sz \<in> set [3, 3, 2, 2, 2, 1, 1, 1, 1 :: int]. 0 \<le> sz" by simp
  from placeAll_inv[OF inv1 this, of rnd]
  obtain st' zs where st': "placeAll rnd st1 [3, 3, 2, 2, 2, 1, 1, 1, 1] = Inr st'"
    "shipSizes (p_ships st') = shipSizes (p_ships st1) @ zs"
    by blast
  have "placing rnd = Inr st'"
    unfolding placing_def SHIP_SIZES_def init_def[symmetric]
    by (subst placeAll.simps(2)) (simp only: t sum.case st')
  then have "st = st'" using assms(2) by simp
  then show ?thesis using st'(2) s1 by (auto simp: init_def)
qed

lemma placedInv_alive:
  assumes "placedInv st" and "subseq (shipSizes (p_ships st)) SHIP_SIZES" and "p_ships st \<noteq> []"
  shows "\<not> checkWin (p_ships st)"
proof -
  obtain e es where e: "p_ships st = e # es"
    using assms(3) by (cases "p_ships st") auto
  have "hits (snd e) = 0"
    using assms(1) e by (simp add: placedInv_def)
  moreover have "size_ship (snd e) \<in> set (shipSizes (p_ships st))"
    by (simp add: e)
  then have "size_ship (snd e) \<in> set SHIP_SIZES"
    using assms(2) list_emb_set[of "(=)" "shipSizes (p_ships st)" SHIP_SIZES] by blast
  then have "1 \<le> size_ship (snd e)"
    by (auto simp: SHIP_SIZES_def)
  ultimately show ?thesis
    by (simp add: checkWin_def e)
qed

lemma newGame_live:
  assumes "\<forall>n. 0 \<le> rnd n \<and> rnd n < 1"
  shows "\<exists>g0. newGame rnd g = Inr g0 \<and> gameInv g0 \<and> gameOver g0 = None \<and> playerTurn g0 \<and>
     \<not> checkWin (cpuShips g0) \<and> \<not> checkWin (playerShips g0)"
proof -
  obtain p where p: "placing rnd = Inr p" "placedInv p" "subseq (shipSizes (p_ships p)) SHIP_SIZES"
    using placing_inv by blast
  let ?rnd = "\<lambda>n. rnd (p_calls p + n)"
  obtain c where c: "placing ?rnd = Inr c" "placedInv c" "subseq (shipSizes (p_ships c)) SHIP_SIZES"
    using placing_inv by blast
  have r': "\<forall>n. 0 \<le> ?rnd n \<and> ?rnd n < 1" using assms by simp
  have "p_ships c \<noteq> []" by (rule placing_nonempty[of ?rnd, OF r' c(1)])
  moreover have "p_ships p \<noteq> []" using placing_nonempty[OF assms p(1)] .
  ultimately show ?thesis
    using p c placedInv_consistent placedInv_alive
    by (simp add: newGame_def gameInv_def)
qed

lemma cpuFire_pick:
  assumes "cpuPick captured g r = Some p"
  shows "cpuFire captured g r =
     (case registerHit (playerBoard g) (playerShips g) (fst p) (snd p) of
        Inl e \<Rightarrow> Inl e
      | Inr res \<Rightarrow>
          (let g1 = g\<lparr>playerBoard := hr_board res, playerShips := hr_ships res,
                      cpuLastShot := Some p, computerShots := computerShots g + 1\<rparr>
           in if checkWin (hr_ships res) then Inr (g1\<lparr>gameOver := Some Cpu\<rparr>)
              else if hr_result res = Miss then Inr (g1\<lparr>playerTurn := True\<rparr>)
              else Inr (g1\<lparr>playerTurn := False, cpuTimers := cpuTimers g1 + 1\<rparr>)))"
  using assms
  by (auto simp: cpuFire_def cpuPick_def Let_def split: sum.splits if_splits)

lemma cpuPick_unfired:
  assumes "wf_board (playerBoard g)" and "cpuPick captured g r = Some p"
  shows "p \<in> set (cellsWhere (\<lambda>c. \<not> hit c) (playerBoard g))"
proof -
  let ?cs = "cellsWhere (\<lambda>c. \<not> hit c) (playerBoard g)"
  let ?i = "\<lfloor>r * of_nat (length ?cs)\<rfloor>"
  have i: "0 \<le> ?i" "?i < int (length ?cs)" and p: "p = ?cs ! nat ?i"
    using assms(2) candidates_unfired[OF assms(1)]
    by (auto simp: cpuPick_def Let_def split: if_splits)
  have "nat ?i < length ?cs" using i by linarith
  then show ?thesis unfolding p by (rule nth_mem)
qed

lemma cpuPick_none:
  assumes "wf_board (playerBoard g)" and "0 \<le> r" and "r < 1"
    and "cpuPick None g r = None"
  shows "cellsWhere (\<lambda>c. \<not> hit c) (playerBoard g) = []"
proof (rule ccontr)
  assume ne: "cellsWhere (\<lambda>c. \<not> hit c) (playerBoard g) \<noteq> []"
  let ?cs = "cellsWhere (\<lambda>c. \<not> hit c) (playerBoard g)"
  have "0 \<le> \<lfloor>r * of_nat (length ?cs)\<rfloor> \<and> \<lfloor>r * of_nat (length ?cs)\<rfloor> < int (length ?cs)"
    using floor_pick[OF assms(2,3), of "length ?cs"] ne by simp
  then have "\<not> (\<lfloor>r * of_nat (length ?cs)\<rfloor> < 0 \<or> \<lfloor>r * of_nat (length ?cs)\<rfloor> \<ge> int (length ?cs))"
    by linarith
  then show False
    using assms(4) ne candidates_unfired[OF assms(1)]
    by (simp add: cpuPick_def Let_def)
qed

lemma cpuFire_none:
  assumes "wf_board (playerBoard g)" and "0 \<le> r" and "r < 1"
    and "cpuPick None g r = None"
  shows "cpuFire None g r = Inr g"
  using cpuPick_none[OF assms] candidates_unfired[OF assms(1)]
  by (simp add: cpuFire_def)

lemma checkWin_all_fired:
  assumes con: "consistent b ships" and win: "checkWin ships"
    and p: "p \<in> set (occupiedCells b)" and c: "getCell b (fst p) (snd p) = Some c"
  shows "hit c"
proof -
  have inb: "inBounds (fst p) (snd p)" and occ: "hasShip c"
    using p c by (auto simp: occupiedCells_def set_cellsWhere)
  obtain k s where ks: "shipId c = Some k" "(k, s) \<in> set ships"
    "size_ship s = int (length (shipCells b k))" "hits s = int (length (firedCells b k))"
    using consistent_ship[OF con inb c occ] by blast
  have "size_ship s \<le> hits s"
    using win ks(2) by (auto simp: checkWin_def list_all_iff)
  then have "card (set (shipCells b k)) \<le> card (set (firedCells b k))"
    using ks(3,4) by (simp add: shipCells_def firedCells_def length_cellsWhere)
  then have "set (firedCells b k) = set (shipCells b k)"
    using fired_subset[of b k] by (simp add: card_seteq)
  moreover have "p \<in> set (shipCells b k)"
    using inb c ks(1) by (simp add: shipCells_def set_cellsWhere)
  ultimately have "p \<in> set (firedCells b k)" by simp
  then show ?thesis
    using c by (auto simp: firedCells_def set_cellsWhere)
qed

lemma cpu_after_win:
  assumes "gameInv g" and "checkWin (playerShips g)"
    and "list_all (\<lambda>r. 0 \<le> r \<and> r < 1) rs"
    and "set (cpuTargets g rs) \<subseteq> set (occupiedCells (playerBoard g))"
  shows "serveAll g (cpuShots rs) = Inr g"
  using assms(3,4)
proof (induction rs)
  case Nil
  show ?case by (simp add: cpuShots_def)
next
  case (Cons r rs)
  have con: "consistent (playerBoard g) (playerShips g)"
    using assms(1) by (simp add: gameInv_def)
  have wf: "wf_board (playerBoard g)" by (rule consistent_wf[OF con])
  have r: "0 \<le> r" "r < 1" and rs: "list_all (\<lambda>r. 0 \<le> r \<and> r < 1) rs"
    using Cons.prems(1) by simp_all
  obtain g1 where g1: "cpuFire None g r = Inr g1"
    using cpuFire_inv[OF assms(1) r] by blast
  have targets: "cpuTargets g (r # rs) =
      (case cpuPick None g r of None \<Rightarrow> [] | Some p \<Rightarrow> [p]) @ cpuTargets g1 rs"
    by (simp add: g1)
  have none: "cpuPick None g r = None"
  proof (rule ccontr)
    assume "cpuPick None g r \<noteq> None"
    then obtain p where p: "cpuPick None g r = Some p" by blast
    have "p \<in> set (cellsWhere (\<lambda>c. \<not> hit c) (playerBoard g))"
      by (rule cpuPick_unfired[OF wf p])
    then obtain c where c: "getCell (playerBoard g) (fst p) (snd p) = Some c" "\<not> hit c"
      by (auto simp: set_cellsWhere)
    have "p \<in> set (occupiedCells (playerBoard g))"
      using Cons.prems(2) unfolding targets p by simp
    then have "hit c"
      using checkWin_all_fired[OF con assms(2) _ c(1)] by simp
    then show False using c(2) by simp
  qed
  have same: "g1 = g"
    using cpuFire_none[OF wf r none] g1 by simp
  have sub: "set (cpuTargets g rs) \<subseteq> set (occupiedCells (playerBoard g))"
    using Cons.prems(2) unfolding targets none same by simp
  have "serveAll g (cpuShots rs) = Inr g"
    by (rule Cons.IH[OF rs sub])
  then show ?case
    using g1 by (simp add: cpuShots_def same)
qed

lemma cpu_shots_win:
  assumes "gameInv g" and "gameOver g = None" and "\<not> checkWin (playerShips g)"
    and "list_all (\<lambda>r. 0 \<le> r \<and> r < 1) rs"
    and "set (cpuTargets g rs) \<subseteq> set (occupiedCells (playerBoard g))"
    and "\<forall>p \<in> set (occupiedCells (playerBoard g)).
           p \<in> set (cpuTargets g rs) \<or>
           (\<forall>c. getCell (playerBoard g) (fst p) (snd p) = Some c \<longrightarrow> hit c)"
  shows "\<exists>g'. serveAll g (cpuShots rs) = Inr g' \<and> gameOver g' = Some Cpu \<and>
     checkWin (playerShips g')"
  using assms
proof (induction rs arbitrary: g)
  case Nil
  have "consistent (playerBoard g) (playerShips g)" using Nil(1) by (simp add: gameInv_def)
  then have "checkWin (playerShips g)"
    using all_fired_checkWin Nil(6) by simp
  then show ?case using Nil(3) by simp
next
  case (Cons r rs)
  define b where "b = playerBoard g"
  define ships where "ships = playerShips g"
  have con: "consistent b ships" using Cons.prems(1) by (simp add: gameInv_def b_def ships_def)
  have wf: "wf_board b" by (rule consistent_wf[OF con])
  have r: "0 \<le> r" "r < 1" and rs: "list_all (\<lambda>r. 0 \<le> r \<and> r < 1) rs"
    using Cons.prems(4) by simp_all
  obtain g1 where g1: "cpuFire None g r = Inr g1"
    using cpuFire_inv[OF Cons.prems(1) r] by blast
  have targets: "cpuTargets g (r # rs) =
      (case cpuPick None g r of None \<Rightarrow> [] | Some p \<Rightarrow> [p]) @ cpuTargets g1 rs"
    by (simp add: g1)
  show ?case
  proof (cases "cpuPick None g r")
    case None
    have "cellsWhere (\<lambda>c. \<not> hit c) b = []"
      using cpuPick_none[OF _ r None] wf by (simp add: b_def)
    then have "\<forall>p \<in> set (occupiedCells b). \<forall>c. getCell b (fst p) (snd p) = Some c \<longrightarrow> hit c"
      unfolding occupiedCells_def cellsWhere_def filter_empty_conv
      by (auto split: option.splits)
    then have "checkWin ships" using all_fired_checkWin[OF con] by simp
    then show ?thesis using Cons.prems(3) by (simp add: ships_def)
  next
    case (Some p)
    have pun: "p \<in> set (cellsWhere (\<lambda>c. \<not> hit c) b)"
      using cpuPick_unfired[OF _ Some] wf by (simp add: b_def)
    have pocc: "p \<in> set (occupiedCells b)"
      using Cons.prems(5) unfolding targets Some by (simp add: b_def)
    obtain c where c: "inBounds (fst p) (snd p)" "getCell b (fst p) (snd p) = Some c"
      "hasShip c" "\<not> hit c"
      using pun pocc by (auto simp: occupiedCells_def set_cellsWhere)
    obtain k s where ks: "shipId c = Some k" "k \<noteq> 0" "map_of ships k = Some s"
      using consistent_ship[OF con c(1,2,3)] by blast
    obtain res where res: "registerHit b ships (fst p) (snd p) = Inr res"
      "consistent (hr_board res) (hr_ships res)"
      using registerHit_consistent[OF con c(1)] by blast
    have board: "hr_board res = setCell b (fst p) (snd p) (c\<lparr>hit := True\<rparr>)"
      using registerHit_board[OF c(2) res(1)] c(4) by simp
    have notmiss: "hr_result res \<noteq> Miss"
      using registerHit_ship[OF c(2) c(4) c(3) ks] res(1) by auto
    have occ: "occupiedCells (hr_board res) = occupiedCells b"
      unfolding board by (rule occupiedCells_mark[OF wf c(1,2)])
    define g2 where "g2 = g\<lparr>playerBoard := hr_board res, playerShips := hr_ships res,
                      cpuLastShot := Some p, computerShots := computerShots g + 1\<rparr>"
    have fire: "cpuFire None g r =
        (if checkWin (hr_ships res) then Inr (g2\<lparr>gameOver := Some Cpu\<rparr>)
         else Inr (g2\<lparr>playerTurn := False, cpuTimers := cpuTimers g2 + 1\<rparr>))"
      unfolding cpuFire_pick[OF Some]
      using res(1) notmiss by (simp add: b_def ships_def g2_def Let_def)
    show ?thesis
    proof (cases "checkWin (hr_ships res)")
      case True
      let ?g = "g2\<lparr>gameOver := Some Cpu\<rparr>"
      have g1eq: "g1 = ?g" using g1 fire True by simp
      have inv: "gameInv ?g"
        using Cons.prems(1) res(2) by (simp add: gameInv_def g2_def)
      have sub: "set (cpuTargets ?g rs) \<subseteq> set (occupiedCells (playerBoard ?g))"
        using Cons.prems(5) occ unfolding targets g1eq by (simp add: g2_def b_def)
      have "serveAll ?g (cpuShots rs) = Inr ?g"
        by (rule cpu_after_win[OF inv _ rs sub]) (use True in \<open>simp add: g2_def\<close>)
      then show ?thesis
        using fire True by (simp add: cpuShots_def g2_def)
    next
      case False
      let ?g = "g2\<lparr>playerTurn := False, cpuTimers := cpuTimers g2 + 1\<rparr>"
      have g1eq: "g1 = ?g" using g1 fire False by simp
      have inv: "gameInv ?g"
        using Cons.prems(1) res(2) by (simp add: gameInv_def g2_def)
      have sub: "set (cpuTargets ?g rs) \<subseteq> set (occupiedCells (playerBoard ?g))"
        using Cons.prems(5) occ unfolding targets g1eq by (simp add: g2_def b_def)
      have rest: "\<forall>q \<in> set (occupiedCells (playerBoard ?g)).
             q \<in> set (cpuTargets ?g rs) \<or>
             (\<forall>c'. getCell (playerBoard ?g) (fst q) (snd q) = Some c' \<longrightarrow> hit c')"
      proof
        fix q assume q: "q \<in> set (occupiedCells (playerBoard ?g))"
        then have qb: "q \<in> set (occupiedCells b)" using occ by (simp add: g2_def)
        show "q \<in> set (cpuTargets ?g rs) \<or>
             (\<forall>c'. getCell (playerBoard ?g) (fst q) (snd q) = Some c' \<longrightarrow> hit c')"
        proof (cases "q = p")
          case True
          have "\<forall>c'. getCell (hr_board res) (fst p) (snd p) = Some c' \<longrightarrow> hit c'"
            unfolding board by (simp add: getCell_setCell[OF wf c(1)])
          then show ?thesis using True by (simp add: g2_def)
        next
          case False
          have "q \<in> set (cpuTargets g (r # rs)) \<or>
             (\<forall>c'. getCell b (fst q) (snd q) = Some c' \<longrightarrow> hit c')"
            using Cons.prems(6) qb by (auto simp: b_def)
          then have old: "q \<in> set (cpuTargets ?g rs) \<or>
             (\<forall>c'. getCell b (fst q) (snd q) = Some c' \<longrightarrow> hit c')"
            unfolding targets Some g1eq using False by auto
          have "getCell (hr_board res) (fst q) (snd q) = getCell b (fst q) (snd q)"
            unfolding board using False by (auto simp: getCell_setCell[OF wf c(1)] prod_eq_iff)
          then show ?thesis using old by (simp add: g2_def)
        qed
      qed
      have "\<exists>g'. serveAll ?g (cpuShots rs) = Inr g' \<and> gameOver g' = Some Cpu \<and>
         checkWin (playerShips g')"
        by (rule Cons.IH[OF inv _ _ rs sub rest])
          (use Cons.prems(2) False in \<open>simp_all add: g2_def\<close>)
      then show ?thesis
        using fire False by (simp add: cpuShots_def)
    qed
  qed
qed

lemma demo_targets: "cpuTargets demoGame [0, 0, 0, 0] = [(0, 0), (1, 0), (2, 0), (3, 0)]"
  unfolding demoGame_def placed_zero by code_simp

text \<open>
  C6. After \<^verbatim>\<open>newGame\<close> (with draws in the range of \<^verbatim>\<open>Math.random()\<close>): player
  shots at the occupied cells of the CPU's board and at no other cell, in any order and
  with any repetition, end with the CPU's fleet destroyed and the game over, won by the
  player; and CPU shots whose picks are the occupied cells of the player's board end
  with the player's fleet destroyed and the game over, won by the CPU.
\<close>

theorem fleet_destroyed_ends_game:
  fixes rnd :: "nat \<Rightarrow> real"
  assumes "\<forall>n. 0 \<le> rnd n \<and> rnd n < 1" and "newGame rnd g = Inr g0"
  shows "(set cs = set (occupiedCells (cpuBoard g0)) \<longrightarrow>
            (\<exists>g'. serveAll g0 (shotsAt cs) = Inr g' \<and> checkWin (cpuShips g') \<and>
               gameOver g' = Some Player)) \<and>
         (list_all (\<lambda>r. 0 \<le> r \<and> r < 1) rs \<and>
          set (cpuTargets g0 rs) = set (occupiedCells (playerBoard g0)) \<longrightarrow>
            (\<exists>g'. serveAll g0 (cpuShots rs) = Inr g' \<and> checkWin (playerShips g') \<and>
               gameOver g' = Some Cpu))"
proof (intro conjI impI)
  have g0: "gameInv g0" "gameOver g0 = None" "playerTurn g0" "\<not> checkWin (cpuShips g0)"
    "\<not> checkWin (playerShips g0)"
    using newGame_live[OF assms(1), of g] assms(2) by auto
  {
    assume cs: "set cs = set (occupiedCells (cpuBoard g0))"
    have "\<exists>g'. serveAll g0 (shotsAt cs) = Inr g' \<and> gameOver g' = Some Player \<and>
       checkWin (cpuShips g')"
      by (rule shots_win[OF g0(1,2,3,4)]) (use cs in auto)
    then show "\<exists>g'. serveAll g0 (shotsAt cs) = Inr g' \<and> checkWin (cpuShips g') \<and>
               gameOver g' = Some Player"
      by blast
  }
  {
    assume a: "list_all (\<lambda>r. 0 \<le> r \<and> r < 1) rs \<and>
          set (cpuTargets g0 rs) = set (occupiedCells (playerBoard g0))"
    then have rs: "list_all (\<lambda>r. 0 \<le> r \<and> r < 1) rs"
      and t: "set (cpuTargets g0 rs) = set (occupiedCells (playerBoard g0))"
      by simp_all
    have "\<exists>g'. serveAll g0 (cpuShots rs) = Inr g' \<and> gameOver g' = Some Cpu \<and>
       checkWin (playerShips g')"
      by (rule cpu_shots_win[OF g0(1,2,5) rs]) (use t in auto)
    then show "\<exists>g'. serveAll g0 (cpuShots rs) = Inr g' \<and> checkWin (playerShips g') \<and>
               gameOver g' = Some Cpu"
      by blast
  }
qed

theorem fleet_destroyed_ends_game_witness:
  "(\<forall>n. 0 \<le> constDraws 0 n \<and> constDraws 0 n < 1) \<and>
   newGame (constDraws 0) initialGame = Inr demoGame \<and>
   set [(3, 0), (0, 0), (2, 0), (1, 0)] = set (occupiedCells (cpuBoard demoGame)) \<and>
   (\<exists>g'. serveAll demoGame (shotsAt [(3, 0), (0, 0), (2, 0), (1, 0)]) = Inr g' \<and>
      checkWin (cpuShips g') \<and> gameOver g' = Some Player) \<and>
   list_all (\<lambda>r. 0 \<le> r \<and> r < 1) [0, 0, 0, 0 :: real] \<and>
   set (cpuTargets demoGame [0, 0, 0, 0]) = set (occupiedCells (playerBoard demoGame)) \<and>
   (\<exists>g'. serveAll demoGame (cpuShots [0, 0, 0, 0]) = Inr g' \<and>
      checkWin (playerShips g') \<and> gameOver g' = Some Cpu)"
proof -
  have r: "\<forall>n. 0 \<le> constDraws 0 n \<and> constDraws 0 n < 1"
    by (simp add: constDraws_def)
  have s: "set [(3, 0), (0, 0), (2, 0), (1, 0)] = set (occupiedCells (cpuBoard demoGame))"
    by (auto simp: demoGame_def demo_board_cells(1))
  have rs: "list_all (\<lambda>r. 0 \<le> r \<and> r < 1) [0, 0, 0, 0 :: real]"
    by simp
  have t: "set (cpuTargets demoGame [0, 0, 0, 0]) = set (occupiedCells (playerBoard demoGame))"
    unfolding demo_targets by (auto simp: demoGame_def demo_board_cells(1))
  note th = fleet_destroyed_ends_game[OF r newGame_demo]
  have "\<exists>g'. serveAll demoGame (shotsAt [(3, 0), (0, 0), (2, 0), (1, 0)]) = Inr g' \<and>
      checkWin (cpuShips g') \<and> gameOver g' = Some Player"
    by (rule th[THEN conjunct1, rule_format, OF s])
  moreover have "\<exists>g'. serveAll demoGame (cpuShots [0, 0, 0, 0]) = Inr g' \<and>
      checkWin (playerShips g') \<and> gameOver g' = Some Cpu"
    by (rule th[THEN conjunct2, rule_format]) (use rs t in blast)
  ultimately show ?thesis
    using r newGame_demo s rs t by blast
qed

end
